theory Spec2Isabelle
  imports Complex_Main "HOL-Library.AList" "HOL-Library.Extended_Nat"
begin

section \<open>Data model of graph_entities.py\<close>

text \<open>
  The two exceptions the code raises. \<open>KeyError\<close> is what a failed dictionary
  subscript \<^verbatim>\<open>d[k]\<close> raises.
\<close>

datatype error = ValueError | KeyError

text \<open>
  Class \<^verbatim>\<open>_Vertex\<close>. In the source, \<^verbatim>\<open>neighbours\<close> is a set of references to
  other vertex objects. Here a reference is the \<^verbatim>\<open>item\<close> of the vertex it points
  to (the graph's dictionary is the store that resolves it), and the set is a
  duplicate-free list whose order stands for the unspecified iteration order
  of a Python set. Theorems about the searches hold for every such order.
\<close>

record 'a vertex =
  item :: 'a
  kind :: string
  neighbours :: "'a list"
  appearances :: "string set"
  sim_score :: real
  movie_info :: "real \<times> real \<times> real"

text \<open>
  Class \<^verbatim>\<open>Graph\<close>: the dictionary \<^verbatim>\<open>_vertices\<close>, kept as an association list
  in insertion order (a Python dictionary is finite and ordered by insertion).
\<close>

type_synonym 'a graph = "('a \<times> 'a vertex) list"

text \<open>\<^verbatim>\<open>_Vertex.__init__\<close>\<close>

definition Vertex_init :: "'a \<Rightarrow> string \<Rightarrow> 'a vertex" where
  "Vertex_init i k =
     \<lparr>item = i, kind = k, neighbours = [], appearances = {}, sim_score = 0,
      movie_info = (0, 0, 0)\<rparr>"

text \<open>\<^verbatim>\<open>Graph.__init__\<close>\<close>

definition Graph_init :: "'a graph" where
  "Graph_init = []"

text \<open>\<^verbatim>\<open>item in self._vertices\<close>\<close>

definition item_in_graph :: "'a graph \<Rightarrow> 'a \<Rightarrow> bool" where
  "item_in_graph g i = (map_of g i \<noteq> None)"

definition add_vertex :: "'a graph \<Rightarrow> 'a \<Rightarrow> string \<Rightarrow> 'a graph" where
  "add_vertex g i k = (if \<not> item_in_graph g i then g @ [(i, Vertex_init i k)] else g)"

text \<open>\<^verbatim>\<open>set.add\<close> on a set kept as a list\<close>

definition set_add :: "'a \<Rightarrow> 'a list \<Rightarrow> 'a list" where
  "set_add x xs = (if x \<in> set xs then xs else xs @ [x])"

text \<open>
  \<^verbatim>\<open>self._vertices[i].neighbours.add(self._vertices[n])\<close>: the in-place update
  of one vertex object, written on the store.
\<close>

definition add_neighbour :: "'a graph \<Rightarrow> 'a \<Rightarrow> 'a \<Rightarrow> 'a graph" where
  "add_neighbour g i n =
     (case map_of g i of
        None \<Rightarrow> g
      | Some v \<Rightarrow> AList.update i (v\<lparr>neighbours := set_add n (neighbours v)\<rparr>) g)"

definition add_edge :: "'a graph \<Rightarrow> 'a \<Rightarrow> 'a \<Rightarrow> error + 'a graph" where
  "add_edge g item1 item2 =
     (if item_in_graph g item1 \<and> item_in_graph g item2
      then Inr (add_neighbour (add_neighbour g item1 item2) item2 item1)
      else Inl ValueError)"

definition adjacent :: "'a graph \<Rightarrow> 'a \<Rightarrow> 'a \<Rightarrow> bool" where
  "adjacent g item1 item2 =
     (if item_in_graph g item1 \<and> item_in_graph g item2
      then (case map_of g item1 of
              None \<Rightarrow> False
            | Some v1 \<Rightarrow> list_ex (\<lambda>v2. v2 = item2) (neighbours v1))
      else False)"

definition get_neighbours :: "'a graph \<Rightarrow> 'a \<Rightarrow> error + 'a set" where
  "get_neighbours g i =
     (case map_of g i of None \<Rightarrow> Inl ValueError | Some v \<Rightarrow> Inr (set (neighbours v)))"

definition add_appearances :: "'a graph \<Rightarrow> 'a \<Rightarrow> string \<Rightarrow> error + 'a graph" where
  "add_appearances g actor movie =
     (case map_of g actor of
        None \<Rightarrow> Inl ValueError
      | Some v \<Rightarrow> Inr (AList.update actor (v\<lparr>appearances := insert movie (appearances v)\<rparr>) g))"

text \<open>
  \<^verbatim>\<open>add_sim_score\<close>: two unguarded subscripts, first \<^verbatim>\<open>sim_scores[movie]\<close>, then
  \<^verbatim>\<open>self._vertices[movie]\<close>.
\<close>

definition add_sim_score :: "'a graph \<Rightarrow> 'a \<Rightarrow> ('a \<rightharpoonup> real) \<Rightarrow> error + 'a graph" where
  "add_sim_score g movie sim_scores =
     (case sim_scores movie of
        None \<Rightarrow> Inl KeyError
      | Some s \<Rightarrow>
          (case map_of g movie of
             None \<Rightarrow> Inl KeyError
           | Some v \<Rightarrow> Inr (AList.update movie (v\<lparr>sim_score := s\<rparr>) g)))"

section \<open>The builders of graph_create.py\<close>

text \<open>
  The movie dictionary produced by \<^verbatim>\<open>load_csv_file\<close>: movie title to
  (cast, (year, votes, rating)). It is iterated, so it is an association list read
  with \<^const>\<open>map_of\<close>; a cast (a Python set) is a list in its iteration order.
\<close>

type_synonym 'a movies = "(string \<times> ('a list \<times> (real \<times> real \<times> real))) list"

text \<open>\<^verbatim>\<open>movies[movie][0]\<close>, the cast of a movie; \<open>None\<close> where the subscript raises.\<close>

definition movie_cast :: "'a movies \<Rightarrow> string \<Rightarrow> 'a list option" where
  "movie_cast movies movie = map_option fst (map_of movies movie)"

text \<open>The loop of \<^verbatim>\<open>_create_actor_graph_helper\<close> over \<^verbatim>\<open>movies[movie][0]\<close>.\<close>

fun helper_loop :: "'a graph \<Rightarrow> 'a \<Rightarrow> 'a list \<Rightarrow> error + 'a graph" where
  "helper_loop g actor [] = Inr g"
| "helper_loop g actor (actor2 # rest) =
     (if item_in_graph g actor2 \<and> actor \<noteq> actor2
      then (case add_edge g actor actor2 of
              Inl e \<Rightarrow> Inl e
            | Inr g' \<Rightarrow> helper_loop g' actor rest)
      else helper_loop g actor rest)"

definition create_actor_graph_helper ::
  "'a movies \<Rightarrow> string \<Rightarrow> 'a graph \<Rightarrow> 'a \<Rightarrow> error + 'a graph" where
  "create_actor_graph_helper movies movie g actor =
     (case movie_cast movies movie of
        None \<Rightarrow> Inl KeyError
      | Some cast \<Rightarrow> helper_loop g actor cast)"

text \<open>The inner loop of \<^verbatim>\<open>create_actor_graph\<close>, over the cast of one movie.\<close>

fun cast_loop :: "'a movies \<Rightarrow> string \<Rightarrow> 'a graph \<Rightarrow> 'a list \<Rightarrow> error + 'a graph" where
  "cast_loop movies movie g [] = Inr g"
| "cast_loop movies movie g (actor # rest) =
     (case add_appearances (add_vertex g actor ''actor'') actor movie of
        Inl e \<Rightarrow> Inl e
      | Inr g1 \<Rightarrow>
          (case create_actor_graph_helper movies movie g1 actor of
             Inl e \<Rightarrow> Inl e
           | Inr g2 \<Rightarrow> cast_loop movies movie g2 rest))"

text \<open>The outer loop, over the keys of the movie dictionary.\<close>

fun movie_loop :: "'a movies \<Rightarrow> 'a graph \<Rightarrow> string list \<Rightarrow> error + 'a graph" where
  "movie_loop movies g [] = Inr g"
| "movie_loop movies g (movie # rest) =
     (case movie_cast movies movie of
        None \<Rightarrow> Inl KeyError
      | Some cast \<Rightarrow>
          (case cast_loop movies movie g cast of
             Inl e \<Rightarrow> Inl e
           | Inr g' \<Rightarrow> movie_loop movies g' rest))"

definition create_actor_graph :: "'a movies \<Rightarrow> error + 'a graph" where
  "create_actor_graph movies = movie_loop movies Graph_init (map fst movies)"





text \<open>The similarity score stored for an item, if the item is a vertex.\<close>

definition score :: "'a graph \<Rightarrow> 'a \<Rightarrow> real option" where
  "score g i = map_option sim_score (map_of g i)"

section \<open>Common movies and the attribute filter\<close>


text \<open>
  The set comprehension of \<^verbatim>\<open>filter_by_key\<close>,
  \<^verbatim>\<open>{movie for movie in common if lower <= float(movies[movie][1][i]) <= upper}\<close>:
  the subscript \<^verbatim>\<open>movies[movie]\<close> is evaluated for every common movie, so one
  missing record makes the whole comprehension raise. The attributes are numbers
  already (\<^verbatim>\<open>float\<close> of a number), compared as reals.
\<close>

definition filter_common ::
  "(real \<times> real \<times> real \<Rightarrow> real) \<Rightarrow> 'b movies \<Rightarrow> real \<Rightarrow> real \<Rightarrow> string set
     \<Rightarrow> error + string set" where
  "filter_common field movies lower upper common =
     (if \<exists>movie \<in> common. map_of movies movie = None then Inl KeyError
      else Inr {movie \<in> common.
                case map_of movies movie of
                  None \<Rightarrow> False
                | Some (cast, info) \<Rightarrow> lower \<le> field info \<and> field info \<le> upper})"

definition filter_by_key ::
  "'a graph \<Rightarrow> 'a \<times> 'a \<Rightarrow> string \<Rightarrow> real \<times> real \<Rightarrow> 'b movies
     \<Rightarrow> error + (bool \<times> string set)" where
  "filter_by_key g actors key thresholds movies =
     (let lower = fst thresholds; upper = snd thresholds;
          actor1 = fst actors; actor2 = snd actors
      in case map_of g actor1 of
           None \<Rightarrow> Inl ValueError
         | Some v1 \<Rightarrow>
        (case map_of g actor2 of
           None \<Rightarrow> Inl ValueError
         | Some v2 \<Rightarrow>
             if key = ''release date'' then
               (case filter_common (\<lambda>(year, votes, rating). year) movies lower upper
                       (appearances v1 \<inter> appearances v2) of
                  Inl e \<Rightarrow> Inl e
                | Inr common_filtered \<Rightarrow>
                    if common_filtered \<noteq> {} then Inr (True, common_filtered)
                    else Inr (False, {}))
             else if key = ''rating'' then
               (case filter_common (\<lambda>(year, votes, rating). rating) movies lower upper
                       (appearances v1 \<inter> appearances v2) of
                  Inl e \<Rightarrow> Inl e
                | Inr common_filtered \<Rightarrow>
                    if common_filtered \<noteq> {} then Inr (True, common_filtered)
                    else Inr (False, {}))
             else Inl KeyError))"

section \<open>Breadth-first search\<close>

text \<open>
  The three searches keep a \<^verbatim>\<open>deque\<close> (a list, popped at the head and appended at the
  end) and a \<^verbatim>\<open>visited\<close> set. The \<^verbatim>\<open>for\<close> loop over a neighbour set is a recursion
  over the neighbour list; the \<^verbatim>\<open>while queue\<close> loop is a recursion that terminates
  because every step either shortens the queue or marks an unvisited item.
  The subscript \<^verbatim>\<open>self._vertices[current_actor]\<close> raises \<open>KeyError\<close> on an item
  that is not a vertex.
\<close>

type_synonym 'a queue = "('a \<times> 'a list) list"

fun sp_visit :: "'a list \<Rightarrow> 'a list \<Rightarrow> 'a set \<times> 'a queue \<Rightarrow> 'a set \<times> 'a queue" where
  "sp_visit path [] (visited, queue) = (visited, queue)"
| "sp_visit path (neighbour # rest) (visited, queue) =
     (if neighbour \<notin> visited
      then sp_visit path rest (insert neighbour visited, queue @ [(neighbour, path @ [neighbour])])
      else sp_visit path rest (visited, queue))"

text \<open>Every item a graph mentions, and how many of them are not yet visited.\<close>

definition graph_items :: "'a graph \<Rightarrow> 'a set" where
  "graph_items g = fst ` set g \<union> (\<Union>(k, v) \<in> set g. set (neighbours v))"

definition unseen :: "'a graph \<Rightarrow> 'a set \<Rightarrow> nat" where
  "unseen g visited = card (graph_items g - visited)"

lemma finite_graph_items: "finite (graph_items g)"
  by (auto simp: graph_items_def)

lemma neighbours_graph_items: "map_of g i = Some v \<Longrightarrow> set (neighbours v) \<subseteq> graph_items g"
  by (auto simp: graph_items_def dest!: map_of_SomeD)

lemma unseen_insert:
  "n \<in> graph_items g \<Longrightarrow> n \<notin> visited \<Longrightarrow> Suc (unseen g (insert n visited)) = unseen g visited"
proof -
  assume a: "n \<in> graph_items g" "n \<notin> visited"
  have "graph_items g - insert n visited = (graph_items g - visited) - {n}" by auto
  moreover have "n \<in> graph_items g - visited" using a by simp
  ultimately show ?thesis
    unfolding unseen_def using finite_graph_items [of g]
    by (metis card_Suc_Diff1 finite_Diff)
qed

lemma sp_visit_measure:
  "set ns \<subseteq> graph_items g \<Longrightarrow> sp_visit path ns (visited, queue) = (visited', queue') \<Longrightarrow>
     unseen g visited' + length queue' = unseen g visited + length queue"
proof (induction ns arbitrary: visited queue)
  case Nil
  then show ?case by simp
next
  case (Cons n ns)
  show ?case
  proof (cases "n \<in> visited")
    case True
    with Cons show ?thesis by simp
  next
    case False
    with Cons.prems have
      "sp_visit path ns (insert n visited, queue @ [(n, path @ [n])]) = (visited', queue')"
      by simp
    from Cons.IH [OF _ this] Cons.prems(1)
    have "unseen g visited' + length queue' = unseen g (insert n visited) + Suc (length queue)"
      by simp
    also have "\<dots> = unseen g visited + length queue"
      using unseen_insert [of n g visited] False Cons.prems(1) by simp
    finally show ?thesis .
  qed
qed

function sp_loop :: "'a graph \<Rightarrow> 'a \<Rightarrow> 'a queue \<Rightarrow> 'a set \<Rightarrow> error + 'a list" where
  "sp_loop g target_item [] visited = Inr []"
| "sp_loop g target_item ((current_actor, path) # queue) visited =
     (if current_actor = target_item then Inr path
      else case map_of g current_actor of
             None \<Rightarrow> Inl KeyError
           | Some v \<Rightarrow>
               (case sp_visit path (neighbours v) (visited, queue) of
                  (visited', queue') \<Rightarrow> sp_loop g target_item queue' visited'))"
  by pat_completeness auto
termination
proof (relation "measure (\<lambda>(g, t, queue, visited). unseen g visited + length queue)")
  show "wf (measure (\<lambda>(g, t, queue, visited). unseen g visited + length queue))" by simp
next
  fix g :: "'a graph" and target_item current_actor :: 'a and path queue visited v visited' queue'
  assume "map_of g current_actor = Some v"
    and "(visited', queue') = sp_visit path (neighbours v) (visited, queue)"
  then have "sp_visit path (neighbours v) (visited, queue) = (visited', queue')"
    and "set (neighbours v) \<subseteq> graph_items g"
    by (simp_all add: neighbours_graph_items)
  from sp_visit_measure [OF this(2,1)]
  show "((g, target_item, queue', visited'), (g, target_item, (current_actor, path) # queue, visited))
      \<in> measure (\<lambda>(g, t, queue, visited). unseen g visited + length queue)"
    by simp
qed

definition shortest_path_bfs :: "'a graph \<Rightarrow> 'a \<Rightarrow> 'a \<Rightarrow> error + 'a list" where
  "shortest_path_bfs g starting_item target_item =
     (if \<not> item_in_graph g starting_item \<or> \<not> item_in_graph g target_item then Inl ValueError
      else sp_loop g target_item [(starting_item, [starting_item])] {starting_item})"

text \<open>\<^verbatim>\<open>_sp_bfs_filtered_helper\<close> and the loops of \<^verbatim>\<open>shortest_path_bfs_filtered\<close>.\<close>

definition sp_bfs_filtered_helper ::
  "bool \<Rightarrow> 'a set \<Rightarrow> 'a \<Rightarrow> 'a queue \<times> 'a list \<Rightarrow> 'a set \<times> 'a queue" where
  "sp_bfs_filtered_helper is_valid visited i queue_path =
     (let queue = fst queue_path; path = snd queue_path
      in if is_valid then (insert i visited, queue @ [(i, path @ [i])]) else (visited, queue))"

fun spf_visit ::
  "'a graph \<Rightarrow> string \<Rightarrow> real \<times> real \<Rightarrow> 'b movies \<Rightarrow> 'a \<Rightarrow> 'a list \<Rightarrow> 'a list
     \<Rightarrow> 'a set \<times> 'a queue \<Rightarrow> error + ('a set \<times> 'a queue)" where
  "spf_visit g key thresholds movies current_actor path [] (visited, queue) = Inr (visited, queue)"
| "spf_visit g key thresholds movies current_actor path (neighbour # rest) (visited, queue) =
     (if neighbour \<notin> visited
      then (case filter_by_key g (current_actor, neighbour) key thresholds movies of
              Inl e \<Rightarrow> Inl e
            | Inr (is_valid, common) \<Rightarrow>
                spf_visit g key thresholds movies current_actor path rest
                  (sp_bfs_filtered_helper is_valid visited neighbour (queue, path)))
      else spf_visit g key thresholds movies current_actor path rest (visited, queue))"

lemma spf_visit_measure:
  "set ns \<subseteq> graph_items g \<Longrightarrow>
   spf_visit g key thresholds movies cur path ns (visited, queue) = Inr (visited', queue') \<Longrightarrow>
     unseen g visited' + length queue' = unseen g visited + length queue"
proof (induction ns arbitrary: visited queue)
  case Nil
  then show ?case by simp
next
  case (Cons n ns)
  show ?case
  proof (cases "n \<in> visited")
    case True
    with Cons show ?thesis by simp
  next
    case False
    with Cons.prems(2) obtain is_valid common where
      f: "filter_by_key g (cur, n) key thresholds movies = Inr (is_valid, common)"
      and r: "spf_visit g key thresholds movies cur path ns
           (sp_bfs_filtered_helper is_valid visited n (queue, path)) = Inr (visited', queue')"
      by (auto split: sum.splits)
    show ?thesis
    proof (cases is_valid)
      case True
      with r have "spf_visit g key thresholds movies cur path ns
           (insert n visited, queue @ [(n, path @ [n])]) = Inr (visited', queue')"
        by (simp add: sp_bfs_filtered_helper_def)
      from Cons.IH [OF _ this] Cons.prems(1)
      have "unseen g visited' + length queue' = unseen g (insert n visited) + Suc (length queue)"
        by simp
      also have "\<dots> = unseen g visited + length queue"
        using unseen_insert [of n g visited] False Cons.prems(1) by simp
      finally show ?thesis .
    next
      case False
      with r have "spf_visit g key thresholds movies cur path ns (visited, queue)
           = Inr (visited', queue')"
        by (simp add: sp_bfs_filtered_helper_def)
      from Cons.IH [OF _ this] Cons.prems(1) show ?thesis by simp
    qed
  qed
qed

function spf_loop ::
  "'a graph \<Rightarrow> string \<Rightarrow> real \<times> real \<Rightarrow> 'b movies \<Rightarrow> 'a \<Rightarrow> 'a queue \<Rightarrow> 'a set
     \<Rightarrow> error + 'a list" where
  "spf_loop g key thresholds movies target_item [] visited = Inr []"
| "spf_loop g key thresholds movies target_item ((current_actor, path) # queue) visited =
     (if current_actor = target_item then Inr path
      else case map_of g current_actor of
             None \<Rightarrow> Inl KeyError
           | Some v \<Rightarrow>
               (case spf_visit g key thresholds movies current_actor path (neighbours v)
                       (visited, queue) of
                  Inl e \<Rightarrow> Inl e
                | Inr (visited', queue') \<Rightarrow>
                    spf_loop g key thresholds movies target_item queue' visited'))"
  by pat_completeness auto
termination
  apply (relation "measure (\<lambda>(g, k, th, m, t, queue, visited). unseen g visited + length queue)")
   apply simp
  apply clarsimp
  apply (drule neighbours_graph_items)
  apply (drule (1) spf_visit_measure)
  apply simp
  done

definition shortest_path_bfs_filtered ::
  "'a graph \<Rightarrow> 'a \<times> 'a \<Rightarrow> string \<Rightarrow> real \<times> real \<Rightarrow> 'b movies \<Rightarrow> error + 'a list" where
  "shortest_path_bfs_filtered g items key thresholds movies =
     (let lower = fst thresholds; upper = snd thresholds;
          starting_item = fst items; target_item = snd items
      in if \<not> item_in_graph g starting_item \<or> \<not> item_in_graph g target_item
         then Inl ValueError
         else spf_loop g key (lower, upper) movies target_item
                [(starting_item, [starting_item])] {starting_item})"

text \<open>
  The loops of \<^verbatim>\<open>shortest_distance_bfs\<close>. A distance is a number of hops or
  \<^verbatim>\<open>float("inf")\<close>, an extended natural number.
\<close>

fun sd_visit ::
  "'a \<Rightarrow> 'a \<Rightarrow> 'a list \<Rightarrow> 'a set \<times> ('a \<rightharpoonup> enat) \<times> 'a list
     \<Rightarrow> error + ('a set \<times> ('a \<rightharpoonup> enat) \<times> 'a list)" where
  "sd_visit starting_item current_actor [] (visited, distances, queue) =
     Inr (visited, distances, queue)"
| "sd_visit starting_item current_actor (neighbour # rest) (visited, distances, queue) =
     (if neighbour \<noteq> starting_item \<and> neighbour \<notin> visited
      then (case distances current_actor of
              None \<Rightarrow> Inl KeyError
            | Some d \<Rightarrow>
                sd_visit starting_item current_actor rest
                  (insert neighbour visited, distances(neighbour \<mapsto> d + 1), queue @ [neighbour]))
      else sd_visit starting_item current_actor rest (visited, distances, queue))"

lemma sd_visit_measure:
  "set ns \<subseteq> graph_items g \<Longrightarrow>
   sd_visit start cur ns (visited, distances, queue) = Inr (visited', distances', queue') \<Longrightarrow>
     unseen g visited' + length queue' = unseen g visited + length queue"
proof (induction ns arbitrary: visited distances queue)
  case Nil
  then show ?case by simp
next
  case (Cons n ns)
  show ?case
  proof (cases "n \<noteq> start \<and> n \<notin> visited")
    case False
    with Cons show ?thesis by auto
  next
    case True
    with Cons.prems(2) obtain d where
      r: "sd_visit start cur ns (insert n visited, distances(n \<mapsto> d + 1), queue @ [n])
           = Inr (visited', distances', queue')"
      by (auto split: option.splits)
    from Cons.IH [OF _ this] Cons.prems(1)
    have "unseen g visited' + length queue' = unseen g (insert n visited) + Suc (length queue)"
      by simp
    also have "\<dots> = unseen g visited + length queue"
      using unseen_insert [of n g visited] True Cons.prems(1) by simp
    finally show ?thesis .
  qed
qed

function sd_loop ::
  "'a graph \<Rightarrow> 'a \<Rightarrow> 'a list \<Rightarrow> 'a set \<Rightarrow> ('a \<rightharpoonup> enat) \<Rightarrow> error + ('a \<rightharpoonup> enat)" where
  "sd_loop g starting_item [] visited distances = Inr distances"
| "sd_loop g starting_item (current_actor # queue) visited distances =
     (case map_of g current_actor of
        None \<Rightarrow> Inl KeyError
      | Some v \<Rightarrow>
          (case sd_visit starting_item current_actor (neighbours v) (visited, distances, queue) of
             Inl e \<Rightarrow> Inl e
           | Inr (visited', distances', queue') \<Rightarrow>
               sd_loop g starting_item queue' visited' distances'))"
  by pat_completeness auto
termination
  apply (relation "measure (\<lambda>(g, s, queue, visited, d). unseen g visited + length queue)")
   apply simp
  apply clarsimp
  apply (drule neighbours_graph_items)
  apply (drule (1) sd_visit_measure)
  apply simp
  done


definition shortest_distance_bfs :: "'a graph \<Rightarrow> 'a \<Rightarrow> error + ('a \<rightharpoonup> enat)" where
  "shortest_distance_bfs g starting_item =
     (if \<not> item_in_graph g starting_item then Inl ValueError
      else case sd_loop g starting_item [starting_item] {starting_item}
                  ((map_of (map (\<lambda>(actor, v). (actor, \<infinity>)) g))(starting_item \<mapsto> 0)) of
             Inl e \<Rightarrow> Inl e
           | Inr distances \<Rightarrow>
               Inr (\<lambda>actor. if actor \<noteq> starting_item then distances actor else None))"

text \<open>
  The subscript \<^verbatim>\<open>shortest_distance_bfs(starting_item)[target_item]\<close> on the returned
  dictionary.
\<close>

definition distance_lookup :: "'a graph \<Rightarrow> 'a \<Rightarrow> 'a \<Rightarrow> error + enat" where
  "distance_lookup g starting_item target_item =
     (case shortest_distance_bfs g starting_item of
        Inl e \<Rightarrow> Inl e
      | Inr distances \<Rightarrow>
          (case distances target_item of None \<Rightarrow> Inl KeyError | Some d \<Rightarrow> Inr d))"

section \<open>Reading a graph: keys and neighbour sets\<close>

text \<open>The keys of \<^verbatim>\<open>_vertices\<close>, and the neighbour items of the vertex stored under a key.\<close>

definition keys :: "'a graph \<Rightarrow> 'a set" where
  "keys g = fst ` set g"

definition nbrs :: "'a graph \<Rightarrow> 'a \<Rightarrow> 'a set" where
  "nbrs g i = (case map_of g i of None \<Rightarrow> {} | Some v \<Rightarrow> set (neighbours v))"

text \<open>
  For the actor graph: the neighbours that one pass over the cast \<open>C\<close> of a movie
  gives \<open>x\<close>, when the actors in \<open>R\<close> are still to be processed and \<open>K\<close> are the keys
  of the graph; and whether two actors are in the cast of one movie among \<open>M\<close>.
\<close>

definition cast_edges :: "'a set \<Rightarrow> 'a set \<Rightarrow> 'a set \<Rightarrow> 'a \<Rightarrow> 'a set" where
  "cast_edges C R K x =
     {y. y \<noteq> x \<and> x \<in> C \<and> y \<in> C \<and> (x \<in> R \<or> y \<in> R) \<and> x \<in> K \<union> R \<and> y \<in> K \<union> R}"

definition share :: "'a movies \<Rightarrow> string set \<Rightarrow> 'a \<Rightarrow> 'a \<Rightarrow> bool" where
  "share movies M a b =
     (\<exists>m \<in> M. \<exists>cast. movie_cast movies m = Some cast \<and> a \<in> set cast \<and> b \<in> set cast)"

text \<open>
  A walk from \<open>a\<close> to \<open>b\<close>: a non-empty list of items that begins with \<open>a\<close>, ends with
  \<open>b\<close> and has consecutive elements adjacent.
\<close>

definition path_between :: "'a graph \<Rightarrow> 'a \<Rightarrow> 'a \<Rightarrow> 'a list \<Rightarrow> bool" where
  "path_between g a b p = (p \<noteq> [] \<and> hd p = a \<and> last p = b \<and> successively (adjacent g) p)"

text \<open>
  The neighbours that one pass of the inner loop marks and enqueues, in order; the
  invariant of the \<^verbatim>\<open>while\<close> loop of \<^verbatim>\<open>shortest_path_bfs\<close> (every queued path is a
  shortest walk to its end, the queue is ordered by length within one level, every
  item that left the queue is not the target and has all its neighbours visited,
  and every item at most as far as the head of the queue is visited); and what
  the loop returns.
\<close>

fun fresh :: "'a list \<Rightarrow> 'a set \<Rightarrow> 'a list" where
  "fresh [] visited = []"
| "fresh (n # ns) visited =
     (if n \<notin> visited then n # fresh ns (insert n visited) else fresh ns visited)"

definition sp_inv :: "'a graph \<Rightarrow> 'a \<Rightarrow> 'a \<Rightarrow> 'a queue \<Rightarrow> 'a set \<Rightarrow> bool" where
  "sp_inv g s t queue visited \<longleftrightarrow>
     s \<in> visited
     \<and> (\<forall>(v, p) \<in> set queue. v \<in> visited \<and> v \<in> keys g \<and> path_between g s v p
           \<and> (\<forall>q. path_between g s v q \<longrightarrow> length p \<le> length q))
     \<and> sorted (map (length \<circ> snd) queue)
     \<and> (\<forall>e \<in> set queue. length (snd e) \<le> Suc (length (snd (hd queue))))
     \<and> (\<forall>u \<in> visited. u \<notin> fst ` set queue \<longrightarrow> u \<noteq> t \<and> nbrs g u \<subseteq> visited)
     \<and> (queue \<noteq> [] \<longrightarrow>
           (\<forall>w q. path_between g s w q \<and> length q \<le> length (snd (hd queue)) \<longrightarrow> w \<in> visited))"

definition sp_result :: "'a graph \<Rightarrow> 'a \<Rightarrow> 'a \<Rightarrow> 'a list \<Rightarrow> bool" where
  "sp_result g s t p \<longleftrightarrow>
     (if p = [] then \<forall>q. \<not> path_between g s t q
      else path_between g s t p \<and> (\<forall>q. path_between g s t q \<longrightarrow> length p \<le> length q))"

text \<open>
  The representation invariants in the docstring of \<^verbatim>\<open>_Vertex\<close>:
  \<^verbatim>\<open>self not in self.neighbours\<close> and
  \<^verbatim>\<open>all(self in u.neighbours for u in self.neighbours)\<close>, for every vertex of the graph.
\<close>

definition edge_invariant :: "'a graph \<Rightarrow> bool" where
  "edge_invariant g =
     (\<forall>(k, v) \<in> set g. k \<notin> set (neighbours v) \<and> (\<forall>u \<in> set (neighbours v). adjacent g u k))"

text \<open>
  Every neighbour reference resolves in the store: in the source a neighbour is a
  vertex object, which \<^verbatim>\<open>add_edge\<close> takes from \<^verbatim>\<open>_vertices\<close>.
\<close>

definition graph_wf :: "'a graph \<Rightarrow> bool" where
  "graph_wf g = (\<forall>(k, v) \<in> set g. \<forall>u \<in> set (neighbours v). item_in_graph g u)"

text \<open>
  The graphs built from the empty graph by the documented mutations;
  \<^verbatim>\<open>add_edge\<close> under its precondition \<^verbatim>\<open>item1 != item2\<close>.
\<close>

inductive reachable_graph :: "'a graph \<Rightarrow> bool" where
  reach_init: "reachable_graph Graph_init"
| reach_vertex: "reachable_graph g \<Longrightarrow> reachable_graph (add_vertex g i k)"
| reach_edge: "reachable_graph g \<Longrightarrow> item1 \<noteq> item2 \<Longrightarrow> add_edge g item1 item2 = Inr g'
    \<Longrightarrow> reachable_graph g'"
| reach_appearance: "reachable_graph g \<Longrightarrow> add_appearances g actor movie = Inr g'
    \<Longrightarrow> reachable_graph g'"
| reach_score: "reachable_graph g \<Longrightarrow> add_sim_score g movie sim_scores = Inr g'
    \<Longrightarrow> reachable_graph g'"

section \<open>How the mutations act on keys and neighbour sets\<close>

lemma keys_dom: "keys g = dom (map_of g)"
  by (simp add: keys_def dom_map_of_conv_image_fst)

lemma item_in_graph_keys: "item_in_graph g i \<longleftrightarrow> i \<in> keys g"
  by (auto simp: item_in_graph_def keys_dom)

lemma nbrs_absent: "i \<notin> keys g \<Longrightarrow> nbrs g i = {}"
  by (auto simp: nbrs_def keys_dom split: option.splits)

lemma adjacent_nbrs: "adjacent g a b \<longleftrightarrow> b \<in> keys g \<and> b \<in> nbrs g a"
  by (auto simp: adjacent_def nbrs_def item_in_graph_def list_ex_iff keys_dom
      split: option.splits)

lemma keys_add_vertex: "keys (add_vertex g i k) = insert i (keys g)"
  by (auto simp: add_vertex_def item_in_graph_keys keys_def)

lemma nbrs_add_vertex: "nbrs (add_vertex g i k) x = nbrs g x"
  by (auto simp: add_vertex_def nbrs_def item_in_graph_def Vertex_init_def map_add_def
      split: option.splits)

lemma keys_add_neighbour: "keys (add_neighbour g i n) = keys g"
  by (auto simp: add_neighbour_def keys_dom update_conv' split: option.splits)

lemma nbrs_add_neighbour:
  "nbrs (add_neighbour g i n) x =
     (if x = i \<and> i \<in> keys g then insert n (nbrs g i) else nbrs g x)"
  by (auto simp: add_neighbour_def nbrs_def update_conv' set_add_def keys_dom
      split: option.splits)

lemma keys_add_edge: "add_edge g a b = Inr g' \<Longrightarrow> keys g' = keys g"
  by (auto simp: add_edge_def keys_add_neighbour split: if_splits)

lemma nbrs_add_edge:
  "add_edge g a b = Inr g' \<Longrightarrow>
     nbrs g' x = (if x = a \<and> x = b then insert a (nbrs g a)
                  else if x = a then insert b (nbrs g a)
                  else if x = b then insert a (nbrs g b) else nbrs g x)"
  by (auto simp: add_edge_def nbrs_add_neighbour keys_add_neighbour item_in_graph_keys
      split: if_splits)

lemma add_edge_ok: "a \<in> keys g \<Longrightarrow> b \<in> keys g \<Longrightarrow> \<exists>g'. add_edge g a b = Inr g'"
  by (simp add: add_edge_def item_in_graph_keys)

lemma keys_add_appearances: "add_appearances g a m = Inr g' \<Longrightarrow> keys g' = keys g"
  by (auto simp: add_appearances_def keys_dom update_conv' split: option.splits if_splits)

lemma nbrs_add_appearances: "add_appearances g a m = Inr g' \<Longrightarrow> nbrs g' x = nbrs g x"
  by (auto simp: add_appearances_def nbrs_def update_conv' split: option.splits if_splits)

lemma keys_add_sim_score: "add_sim_score g m s = Inr g' \<Longrightarrow> keys g' = keys g"
  by (auto simp: add_sim_score_def keys_dom update_conv' split: option.splits if_splits)

lemma nbrs_add_sim_score: "add_sim_score g m s = Inr g' \<Longrightarrow> nbrs g' x = nbrs g x"
  by (auto simp: add_sim_score_def nbrs_def update_conv' split: option.splits if_splits)

text \<open>Keys stay distinct, so a pair of the list is exactly a binding of the dictionary.\<close>

lemma distinct_add_neighbour:
  "distinct (map fst g) \<Longrightarrow> distinct (map fst (add_neighbour g i n))"
  by (simp add: add_neighbour_def distinct_update split: option.splits)

lemma reachable_distinct: "reachable_graph g \<Longrightarrow> distinct (map fst g)"
proof (induction rule: reachable_graph.induct)
  case reach_init
  show ?case by (simp add: Graph_init_def)
next
  case (reach_vertex g i k)
  then show ?case
    by (auto simp: add_vertex_def item_in_graph_keys keys_def)
next
  case (reach_edge g item1 item2 g')
  then show ?case
    by (auto simp: add_edge_def distinct_add_neighbour split: if_splits)
next
  case (reach_appearance g actor movie g')
  then show ?case
    by (auto simp: add_appearances_def distinct_update split: option.splits)
next
  case (reach_score g movie sim_scores g')
  then show ?case
    by (auto simp: add_sim_score_def distinct_update split: option.splits)
qed

lemma reachable_nbrs:
  "reachable_graph g \<Longrightarrow> x \<notin> nbrs g x \<and> (\<forall>u \<in> nbrs g x. u \<in> keys g \<and> x \<in> nbrs g u)"
proof (induction arbitrary: x rule: reachable_graph.induct)
  case reach_init
  show ?case by (simp add: Graph_init_def nbrs_def)
next
  case (reach_vertex g i k)
  then show ?case by (simp add: nbrs_add_vertex keys_add_vertex)
next
  case (reach_edge g item1 item2 g')
  from reach_edge.hyps(3) have k: "item1 \<in> keys g" "item2 \<in> keys g"
    by (auto simp: add_edge_def item_in_graph_keys split: if_splits)
  show ?case
    using reach_edge.IH reach_edge.hyps(2) k
    by (auto simp: nbrs_add_edge [OF reach_edge.hyps(3)] keys_add_edge [OF reach_edge.hyps(3)])
next
  case (reach_appearance g actor movie g')
  then show ?case by (simp add: nbrs_add_appearances keys_add_appearances)
next
  case (reach_score g movie sim_scores g')
  then show ?case by (simp add: nbrs_add_sim_score keys_add_sim_score)
qed

lemma pair_nbrs: "distinct (map fst g) \<Longrightarrow> (k, v) \<in> set g \<Longrightarrow> nbrs g k = set (neighbours v)"
  by (simp add: nbrs_def)

lemma graph_wf_nbrs: "graph_wf g \<Longrightarrow> u \<in> nbrs g x \<Longrightarrow> u \<in> keys g"
  by (auto simp: graph_wf_def nbrs_def item_in_graph_keys split: option.splits
      dest!: map_of_SomeD)

text \<open>
  Every graph built by the mutations has all its neighbour references among its
  vertices, which is the assumption \<open>graph_wf\<close> of the theorems about the searches.
\<close>

lemma reachable_graph_wf: "reachable_graph g \<Longrightarrow> graph_wf g"
  unfolding graph_wf_def
proof (clarify)
  fix k v u assume r: "reachable_graph g" and kv: "(k, v) \<in> set g" and u: "u \<in> set (neighbours v)"
  from pair_nbrs [OF reachable_distinct [OF r] kv] u have "u \<in> nbrs g k" by simp
  with reachable_nbrs [OF r, of k] show "item_in_graph g u"
    by (simp add: item_in_graph_keys)
qed

text \<open>The recommendation loop, from any graph that holds the focal movie.\<close>

lemma score_add_vertex: "score (add_vertex g i k) x = (if x \<in> keys g then score g x else if x = i then Some 0 else None)"
  by (auto simp: score_def add_vertex_def item_in_graph_def keys_dom Vertex_init_def map_add_def
      split: option.splits)


lemma keys_Graph_init: "keys Graph_init = {}"
  by (simp add: keys_def Graph_init_def)

lemma nbrs_Graph_init: "nbrs Graph_init x = {}"
  by (simp add: nbrs_def Graph_init_def)






text \<open>The loops of the actor-graph builder.\<close>

lemma helper_loop_effect:
  "actor \<in> keys g \<Longrightarrow>
   \<exists>g'. helper_loop g actor as = Inr g' \<and> keys g' = keys g
      \<and> (\<forall>x. nbrs g' x = nbrs g x \<union>
            (if x = actor then {y \<in> set as. y \<in> keys g \<and> y \<noteq> actor}
             else if x \<in> set as \<and> x \<in> keys g then {actor} else {}))"
proof (induction as arbitrary: g)
  case Nil
  then show ?case by simp
next
  case (Cons a as)
  show ?case
  proof (cases "a \<in> keys g \<and> actor \<noteq> a")
    case True
    from add_edge_ok [of actor g a] Cons.prems True
    obtain g1 where g1: "add_edge g actor a = Inr g1" by auto
    have k1: "keys g1 = keys g" by (rule keys_add_edge [OF g1])
    have n1: "\<And>x. nbrs g1 x = (if x = actor then insert a (nbrs g actor)
                  else if x = a then insert actor (nbrs g a) else nbrs g x)"
      using nbrs_add_edge [OF g1] True by auto
    have "actor \<in> keys g1" using k1 Cons.prems by simp
    from Cons.IH [OF this]
    obtain g' where g': "helper_loop g1 actor as = Inr g'" "keys g' = keys g1"
      "\<forall>x. nbrs g' x = nbrs g1 x \<union>
            (if x = actor then {y \<in> set as. y \<in> keys g1 \<and> y \<noteq> actor}
             else if x \<in> set as \<and> x \<in> keys g1 then {actor} else {})"
      by blast
    have "helper_loop g actor (a # as) = Inr g'"
      using True g1 g'(1) by (simp add: item_in_graph_keys)
    moreover have "keys g' = keys g" using g'(2) k1 by simp
    moreover have "\<forall>x. nbrs g' x = nbrs g x \<union>
            (if x = actor then {y \<in> set (a # as). y \<in> keys g \<and> y \<noteq> actor}
             else if x \<in> set (a # as) \<and> x \<in> keys g then {actor} else {})"
      using g'(3) n1 k1 True by auto
    ultimately show ?thesis by blast
  next
    case False
    from Cons.IH [OF Cons.prems]
    obtain g' where g': "helper_loop g actor as = Inr g'" "keys g' = keys g"
      "\<forall>x. nbrs g' x = nbrs g x \<union>
            (if x = actor then {y \<in> set as. y \<in> keys g \<and> y \<noteq> actor}
             else if x \<in> set as \<and> x \<in> keys g then {actor} else {})"
      by blast
    have "helper_loop g actor (a # as) = Inr g'"
      using False g'(1) by (auto simp add: item_in_graph_keys)
    moreover have "\<forall>x. nbrs g' x = nbrs g x \<union>
            (if x = actor then {y \<in> set (a # as). y \<in> keys g \<and> y \<noteq> actor}
             else if x \<in> set (a # as) \<and> x \<in> keys g then {actor} else {})"
      using g'(3) False by auto
    ultimately show ?thesis using g'(2) by blast
  qed
qed

lemma cast_loop_effect:
  "movie_cast movies movie = Some cast \<Longrightarrow> set rest \<subseteq> set cast \<Longrightarrow>
   \<exists>g'. cast_loop movies movie g rest = Inr g' \<and> keys g' = keys g \<union> set rest
      \<and> (\<forall>x. nbrs g' x = nbrs g x \<union> cast_edges (set cast) (set rest) (keys g) x)"
proof (induction rest arbitrary: g)
  case Nil
  then show ?case by (simp add: cast_edges_def)
next
  case (Cons a rest)
  have "a \<in> keys (add_vertex g a ''actor'')" by (simp add: keys_add_vertex)
  then obtain g1 where g1: "add_appearances (add_vertex g a ''actor'') a movie = Inr g1"
    by (auto simp: add_appearances_def keys_dom split: option.splits)
  have k1: "keys g1 = insert a (keys g)"
    using keys_add_appearances [OF g1] by (simp add: keys_add_vertex)
  have n1: "\<And>x. nbrs g1 x = nbrs g x"
    using nbrs_add_appearances [OF g1] by (simp add: nbrs_add_vertex)
  have "a \<in> keys g1" using k1 by simp
  from helper_loop_effect [OF this, of cast]
  obtain g2 where g2: "helper_loop g1 a cast = Inr g2" "keys g2 = keys g1"
      "\<forall>x. nbrs g2 x = nbrs g1 x \<union>
            (if x = a then {y \<in> set cast. y \<in> keys g1 \<and> y \<noteq> a}
             else if x \<in> set cast \<and> x \<in> keys g1 then {a} else {})"
    by blast
  have h: "create_actor_graph_helper movies movie g1 a = Inr g2"
    using g2(1) Cons.prems(1) by (simp add: create_actor_graph_helper_def)
  from Cons.prems(2) have sub: "set rest \<subseteq> set cast" and ac: "a \<in> set cast" by auto
  from Cons.IH [OF Cons.prems(1) sub, of g2]
  obtain g' where g': "cast_loop movies movie g2 rest = Inr g'" "keys g' = keys g2 \<union> set rest"
      "\<forall>x. nbrs g' x = nbrs g2 x \<union> cast_edges (set cast) (set rest) (keys g2) x"
    by blast
  have "cast_loop movies movie g (a # rest) = Inr g'"
    using g1 h g'(1) by simp
  moreover have "keys g' = keys g \<union> set (a # rest)"
    using g'(2) g2(2) k1 by auto
  moreover have "\<forall>x. nbrs g' x = nbrs g x \<union> cast_edges (set cast) (set (a # rest)) (keys g) x"
  proof
    fix x
    have e1: "nbrs g' x = nbrs g x \<union>
            ((if x = a then {y \<in> set cast. y \<in> insert a (keys g) \<and> y \<noteq> a}
             else if x \<in> set cast \<and> x \<in> insert a (keys g) then {a} else {})
            \<union> cast_edges (set cast) (set rest) (insert a (keys g)) x)"
      using g'(3) g2(2,3) k1 n1 by (simp add: Un_assoc)
    have e2: "(if x = a then {y \<in> set cast. y \<in> insert a (keys g) \<and> y \<noteq> a}
             else if x \<in> set cast \<and> x \<in> insert a (keys g) then {a} else {})
            \<union> cast_edges (set cast) (set rest) (insert a (keys g)) x
         = cast_edges (set cast) (set (a # rest)) (keys g) x"
      using ac sub unfolding cast_edges_def by auto
    show "nbrs g' x = nbrs g x \<union> cast_edges (set cast) (set (a # rest)) (keys g) x"
      using e1 unfolding e2 .
  qed
  ultimately show ?case by blast
qed

lemma cast_edges_full:
  "cast_edges (set cast) (set cast) K x = {y. y \<noteq> x \<and> x \<in> set cast \<and> y \<in> set cast}"
  by (auto simp: cast_edges_def)

lemma movie_loop_effect:
  "\<forall>m \<in> set ms. movie_cast movies m \<noteq> None \<Longrightarrow>
   \<exists>g'. movie_loop movies g ms = Inr g'
      \<and> (\<forall>x. x \<in> keys g' \<longleftrightarrow> x \<in> keys g \<or> share movies (set ms) x x)
      \<and> (\<forall>x. nbrs g' x = nbrs g x \<union> {y. y \<noteq> x \<and> share movies (set ms) x y})"
proof (induction ms arbitrary: g)
  case Nil
  then show ?case by (simp add: share_def)
next
  case (Cons m ms)
  then obtain cast where c: "movie_cast movies m = Some cast" by auto
  from cast_loop_effect [OF c subset_refl, of g]
  obtain g1 where g1: "cast_loop movies m g cast = Inr g1" "keys g1 = keys g \<union> set cast"
    "\<forall>x. nbrs g1 x = nbrs g x \<union> {y. y \<noteq> x \<and> x \<in> set cast \<and> y \<in> set cast}"
    unfolding cast_edges_full by blast
  from Cons.prems have "\<forall>m \<in> set ms. movie_cast movies m \<noteq> None" by simp
  from Cons.IH [OF this, of g1]
  obtain g' where g': "movie_loop movies g1 ms = Inr g'"
      "\<forall>x. x \<in> keys g' \<longleftrightarrow> x \<in> keys g1 \<or> share movies (set ms) x x"
      "\<forall>x. nbrs g' x = nbrs g1 x \<union> {y. y \<noteq> x \<and> share movies (set ms) x y}"
    by blast
  have sh: "\<And>x y. share movies (insert m (set ms)) x y \<longleftrightarrow>
      (x \<in> set cast \<and> y \<in> set cast) \<or> share movies (set ms) x y"
    using c by (simp add: share_def)
  have "movie_loop movies g (m # ms) = Inr g'" using c g1(1) g'(1) by simp
  moreover have "\<forall>x. x \<in> keys g' \<longleftrightarrow> x \<in> keys g \<or> share movies (set (m # ms)) x x"
    using g'(2) g1(2) by (auto simp: sh)
  moreover have "\<forall>x. nbrs g' x = nbrs g x \<union> {y. y \<noteq> x \<and> share movies (set (m # ms)) x y}"
    using g'(3) g1(3) by (auto simp: sh)
  ultimately show ?case by blast
qed



lemma filter_by_key_present:
  assumes "map_of g actor1 = Some v1" and "map_of g actor2 = Some v2"
  shows "filter_by_key g (actor1, actor2) key thresholds movies =
     (if key = ''release date'' then
               (case filter_common (\<lambda>(year, votes, rating). year) movies (fst thresholds) (snd thresholds)
                       (appearances v1 \<inter> appearances v2) of
                  Inl e \<Rightarrow> Inl e
                | Inr common_filtered \<Rightarrow>
                    if common_filtered \<noteq> {} then Inr (True, common_filtered)
                    else Inr (False, {}))
             else if key = ''rating'' then
               (case filter_common (\<lambda>(year, votes, rating). rating) movies (fst thresholds) (snd thresholds)
                       (appearances v1 \<inter> appearances v2) of
                  Inl e \<Rightarrow> Inl e
                | Inr common_filtered \<Rightarrow>
                    if common_filtered \<noteq> {} then Inr (True, common_filtered)
                    else Inr (False, {}))
             else Inl KeyError)"
  unfolding filter_by_key_def Let_def fst_conv snd_conv assms option.case ..

section \<open>Correctness of the breadth-first search\<close>

lemma set_fresh: "set (fresh ns visited) = set ns - visited"
  by (induction ns arbitrary: visited) auto

lemma sp_visit_eq:
  "sp_visit path ns (visited, queue) =
     (visited \<union> set ns, queue @ map (\<lambda>n. (n, path @ [n])) (fresh ns visited))"
  by (induction ns arbitrary: visited queue) auto

lemma path_between_single: "path_between g a a [a]"
  by (simp add: path_between_def)

lemma path_between_snoc:
  "path_between g a u p \<Longrightarrow> adjacent g u w \<Longrightarrow> path_between g a w (p @ [w])"
  by (simp add: path_between_def successively_append_iff)

lemma path_between_unsnoc:
  assumes "path_between g a w q" and "2 \<le> length q"
  shows "\<exists>q' u. q = q' @ [w] \<and> path_between g a u q' \<and> adjacent g u w"
proof -
  from assms(1) have ne: "q \<noteq> []" and l: "last q = w" and h: "hd q = a"
    and sc: "successively (adjacent g) q"
    by (simp_all add: path_between_def)
  define q' where "q' = butlast q"
  have q: "q = q' @ [w]" using append_butlast_last_id [OF ne] l by (simp add: q'_def)
  have ne': "q' \<noteq> []" using assms(2) q by (cases q') auto
  from sc ne' have "successively (adjacent g) q'" "adjacent g (last q') w"
    unfolding q by (simp_all add: successively_append_iff)
  moreover have "hd q' = a" using h ne' unfolding q by simp
  ultimately have "path_between g a (last q') q'" using ne' by (simp add: path_between_def)
  with q \<open>adjacent g (last q') w\<close> show ?thesis by blast
qed

lemma path_between_length: "path_between g a b q \<Longrightarrow> 1 \<le> length q"
  by (cases q) (simp_all add: path_between_def)

lemma path_between_short: "path_between g a b q \<Longrightarrow> length q \<le> 1 \<Longrightarrow> b = a"
  by (cases q) (auto simp add: path_between_def)

lemma sorted_hd_le: "sorted xs \<Longrightarrow> x \<in> set xs \<Longrightarrow> hd xs \<le> (x::nat)"
  by (cases xs) auto

lemma nbrs_Some: "map_of g i = Some v \<Longrightarrow> nbrs g i = set (neighbours v)"
  by (simp add: nbrs_def)

lemma keys_Some: "map_of g i = Some v \<Longrightarrow> i \<in> keys g"
  by (auto simp: keys_dom)

lemma sp_inv_init: "s \<in> keys g \<Longrightarrow> sp_inv g s t [(s, [s])] {s}"
  unfolding sp_inv_def
  by (auto simp: path_between_single dest: path_between_length path_between_short)

lemma sp_inv_step:
  assumes inv: "sp_inv g s t ((cur, path) # rest) visited"
    and wf: "graph_wf g" and nt: "cur \<noteq> t" and v: "map_of g cur = Some v"
  shows "sp_inv g s t (rest @ map (\<lambda>n. (n, path @ [n])) (fresh (neighbours v) visited))
           (visited \<union> set (neighbours v))"
proof -
  let ?ns = "neighbours v"
  let ?new = "map (\<lambda>n. (n, path @ [n])) (fresh ?ns visited)"
  let ?queue = "rest @ ?new"
  let ?visited = "visited \<union> set ?ns"
  note N = nbrs_Some [OF v]
  let ?q0 = "(cur, path) # rest"
  from inv have a0: "s \<in> visited"
    and c1: "\<forall>(v, p) \<in> set ?q0. v \<in> visited \<and> v \<in> keys g \<and> path_between g s v p
           \<and> (\<forall>q. path_between g s v q \<longrightarrow> length p \<le> length q)"
    and c2: "sorted (map (length \<circ> snd) ?q0)"
    and c3: "\<forall>e \<in> set ?q0. length (snd e) \<le> Suc (length (snd (hd ?q0)))"
    and c4: "\<forall>u \<in> visited. u \<notin> fst ` set ?q0 \<longrightarrow> u \<noteq> t \<and> nbrs g u \<subseteq> visited"
    and c5: "?q0 \<noteq> [] \<longrightarrow>
           (\<forall>w q. path_between g s w q \<and> length q \<le> length (snd (hd ?q0)) \<longrightarrow> w \<in> visited)"
    unfolding sp_inv_def by - ((elim conjE, assumption)+)
  from c1 have a1: "cur \<in> visited" "cur \<in> keys g" "path_between g s cur path"
      "\<And>q. path_between g s cur q \<Longrightarrow> length path \<le> length q"
    by simp_all
  have a1r: "x \<in> visited \<and> x \<in> keys g \<and> path_between g s x p
           \<and> (\<forall>q. path_between g s x q \<longrightarrow> length p \<le> length q)"
    if "(x, p) \<in> set rest" for x p
    using c1 that by (simp add: Ball_def)
  from c2 have a2: "sorted (map (length \<circ> snd) rest)"
      "\<And>e. e \<in> set rest \<Longrightarrow> length path \<le> length (snd e)"
    by simp_all
  have a3: "length (snd e) \<le> Suc (length path)" if "e \<in> set rest" for e
    using c3 that by simp
  have a4: "u \<noteq> t \<and> nbrs g u \<subseteq> visited"
    if "u \<in> visited" "u \<noteq> cur" "u \<notin> fst ` set rest" for u
    using c4 that by simp
  have a5: "w \<in> visited" if "path_between g s w q" "length q \<le> length path" for w q
    using c5 that by (simp del: One_nat_def) blast
  have newE: "\<And>e. e \<in> set ?new \<Longrightarrow> \<exists>n. e = (n, path @ [n]) \<and> n \<in> set ?ns \<and> n \<notin> visited"
    by (auto simp: set_fresh)
  have newfst: "fst ` set ?new = set ?ns - visited"
    by (force simp: set_fresh)
  have adj: "\<And>n. n \<in> set ?ns \<Longrightarrow> n \<in> keys g \<and> adjacent g cur n"
    using graph_wf_nbrs [OF wf, of _ cur] by (simp add: N adjacent_nbrs)
  have b1: "\<forall>(x, p) \<in> set ?queue. x \<in> ?visited \<and> x \<in> keys g \<and> path_between g s x p
           \<and> (\<forall>q. path_between g s x q \<longrightarrow> length p \<le> length q)"
  proof (clarify)
    fix x p assume "(x, p) \<in> set ?queue"
    then consider "(x, p) \<in> set rest" | "(x, p) \<in> set ?new" by auto
    then show "x \<in> ?visited \<and> x \<in> keys g \<and> path_between g s x p
           \<and> (\<forall>q. path_between g s x q \<longrightarrow> length p \<le> length q)"
    proof cases
      case 1
      from a1r [OF 1] show ?thesis by simp
    next
      case 2
      from newE [OF 2] have p: "p = path @ [x]" and x: "x \<in> set ?ns" "x \<notin> visited" by auto
      have "\<forall>q. path_between g s x q \<longrightarrow> length p \<le> length q"
      proof (intro allI impI)
        fix q assume q: "path_between g s x q"
        show "length p \<le> length q"
        proof (rule ccontr)
          assume "\<not> length p \<le> length q"
          then have "length q \<le> length path" by (simp add: p)
          from a5 [OF q this] x(2) show False by simp
        qed
      qed
      moreover have "path_between g s x p"
        unfolding p using a1(3) adj [OF x(1)] by (simp add: path_between_snoc)
      ultimately show ?thesis using x(1) adj [OF x(1)] by simp
    qed
  qed
  have lenq: "\<And>e. e \<in> set ?queue \<Longrightarrow>
      length path \<le> length (snd e) \<and> length (snd e) \<le> Suc (length path)"
  proof -
    fix e assume "e \<in> set ?queue"
    then consider "e \<in> set rest" | "e \<in> set ?new" by auto
    then show "length path \<le> length (snd e) \<and> length (snd e) \<le> Suc (length path)"
    proof cases
      case 1
      then show ?thesis using a2(2) a3 by simp
    next
      case 2
      from newE [OF 2] show ?thesis by auto
    qed
  qed
  have b2: "sorted (map (length \<circ> snd) ?queue)"
  proof -
    have "sorted (map (length \<circ> snd) ?new)"
      by (simp add: comp_def sorted_wrt_iff_nth_less)
    moreover have "\<forall>x \<in> set (map (length \<circ> snd) rest). \<forall>y \<in> set (map (length \<circ> snd) ?new). x \<le> y"
      using a3 by (auto simp: comp_def)
    ultimately show ?thesis using a2(1) by (simp add: sorted_append)
  qed
  have hdq: "?queue \<noteq> [] \<Longrightarrow> hd ?queue \<in> set ?queue" by (rule hd_in_set)
  have b3: "\<forall>e \<in> set ?queue. length (snd e) \<le> Suc (length (snd (hd ?queue)))"
  proof
    fix e assume e: "e \<in> set ?queue"
    then have "?queue \<noteq> []" by auto
    from lenq [OF hdq [OF this]] lenq [OF e]
    show "length (snd e) \<le> Suc (length (snd (hd ?queue)))" by simp
  qed
  have b4: "\<forall>u \<in> ?visited. u \<notin> fst ` set ?queue \<longrightarrow> u \<noteq> t \<and> nbrs g u \<subseteq> ?visited"
  proof (intro ballI impI)
    fix u assume u: "u \<in> ?visited" "u \<notin> fst ` set ?queue"
    from u(2) have nr: "u \<notin> fst ` set rest" and nn: "u \<notin> fst ` set ?new"
      by (auto simp: image_Un)
    from nn have "u \<notin> set ?ns - visited" unfolding newfst .
    with u(1) have uv: "u \<in> visited" by auto
    show "u \<noteq> t \<and> nbrs g u \<subseteq> ?visited"
    proof (cases "u = cur")
      case True
      then show ?thesis using nt N by auto
    next
      case False
      from a4 [OF uv False nr] show ?thesis by auto
    qed
  qed
  have b5: "?queue \<noteq> [] \<longrightarrow>
           (\<forall>w q. path_between g s w q \<and> length q \<le> length (snd (hd ?queue)) \<longrightarrow> w \<in> ?visited)"
  proof (intro impI allI, elim conjE)
    fix w q assume ne: "?queue \<noteq> []" and q: "path_between g s w q"
      and l: "length q \<le> length (snd (hd ?queue))"
    from lenq [OF hdq [OF ne]] have hl: "length (snd (hd ?queue)) \<le> Suc (length path)" by simp
    show "w \<in> ?visited"
    proof (cases "length q \<le> length path")
      case True
      from a5 [OF q True] show ?thesis by simp
    next
      case False
      with l hl have lq: "length q = Suc (length path)"
        and hq: "length (snd (hd ?queue)) = Suc (length path)" by simp_all
      from path_between_length [OF a1(3)] lq have "2 \<le> length q" by simp
      from path_between_unsnoc [OF q this] obtain q' u where
        q': "q = q' @ [w]" "path_between g s u q'" "adjacent g u w" by blast
      from q'(1) lq have lq': "length q' \<le> length path" by simp
      from a5 [OF q'(2) lq'] have uv: "u \<in> visited" .
      from q'(3) have wn: "w \<in> nbrs g u" by (simp add: adjacent_nbrs)
      show ?thesis
      proof (cases "u = cur")
        case True
        with wn N show ?thesis by simp
      next
        case False
        show ?thesis
        proof (cases "u \<in> fst ` set rest")
          case True
          then obtain pu where pu: "(u, pu) \<in> set rest" by force
          from a1r [OF pu] q'(2) have "length pu \<le> length q'" by blast
          moreover have "length (snd (hd ?queue)) \<le> length pu"
          proof -
            have "(u, pu) \<in> set ?queue" using pu by simp
            then have "length pu \<in> set (map (length \<circ> snd) ?queue)"
              unfolding set_map by (intro image_eqI [where x = "(u, pu)"]) simp_all
            from sorted_hd_le [OF b2 this] show ?thesis
              unfolding hd_map [OF ne] by simp
          qed
          ultimately show ?thesis using hq lq' by simp
        next
          case False
          from a4 [OF uv \<open>u \<noteq> cur\<close> False] wn show ?thesis by auto
        qed
      qed
    qed
  qed
  show ?thesis
    unfolding sp_inv_def using a0 b1 b2 b3 b4 b5 by (intro conjI) simp_all
qed

lemma closed_reach:
  assumes "s \<in> V" and "\<forall>u \<in> V. nbrs g u \<subseteq> V"
  shows "path_between g s w q \<Longrightarrow> w \<in> V"
proof (induction q arbitrary: w rule: rev_induct)
  case Nil
  then show ?case by (simp add: path_between_def)
next
  case (snoc x q)
  show ?case
  proof (cases "2 \<le> length (q @ [x])")
    case True
    from path_between_unsnoc [OF snoc.prems True] obtain q' u where
      "q @ [x] = q' @ [w]" "path_between g s u q'" "adjacent g u w" by blast
    then have "path_between g s u q" "w \<in> nbrs g u" by (simp_all add: adjacent_nbrs)
    with snoc.IH [of u] assms(2) show ?thesis by blast
  next
    case False
    then have "length (q @ [x]) \<le> 1" by (cases q) simp_all
    from path_between_short [OF snoc.prems this] assms(1) show ?thesis by simp
  qed
qed

lemma sp_loop_correct:
  "graph_wf g \<Longrightarrow> sp_inv g s t queue visited \<Longrightarrow>
     \<exists>p. sp_loop g t queue visited = Inr p \<and> sp_result g s t p"
proof (induction g t queue visited rule: sp_loop.induct)
  case (1 g t visited)
  from "1.prems"(2) have s: "s \<in> visited"
    and c: "\<forall>u \<in> visited. u \<noteq> t \<and> nbrs g u \<subseteq> visited"
    unfolding sp_inv_def by simp_all
  have "\<not> path_between g s t q" for q
  proof
    assume "path_between g s t q"
    from closed_reach [OF s _ this] c have "t \<in> visited" by blast
    with c show False by blast
  qed
  then show ?case by (simp add: sp_result_def)
next
  case (2 g t cur path queue visited)
  from "2.prems"(2) have h: "cur \<in> keys g" "path_between g s cur path"
      "\<forall>q. path_between g s cur q \<longrightarrow> length path \<le> length q"
    unfolding sp_inv_def by simp_all
  show ?case
  proof (cases "cur = t")
    case True
    from h(2) have "path \<noteq> []" by (simp add: path_between_def)
    with True h show ?thesis by (simp add: sp_result_def)
  next
    case False
    from h(1) obtain v where v: "map_of g cur = Some v" by (auto simp: keys_dom)
    let ?queue = "queue @ map (\<lambda>n. (n, path @ [n])) (fresh (neighbours v) visited)"
    let ?visited = "visited \<union> set (neighbours v)"
    have e: "(?visited, ?queue) = sp_visit path (neighbours v) (visited, queue)"
      by (simp add: sp_visit_eq)
    from "2.IH" [OF False v e "2.prems"(1) sp_inv_step [OF "2.prems"(2,1) False v]]
    obtain p where "sp_loop g t ?queue ?visited = Inr p" "sp_result g s t p" by blast
    then show ?thesis using False v by (simp add: sp_visit_eq)
  qed
qed

lemma shortest_path_bfs_result:
  assumes "graph_wf g" "item_in_graph g s" "item_in_graph g t"
  shows "\<exists>p. shortest_path_bfs g s t = Inr p \<and> sp_result g s t p"
proof -
  from assms(2) have "s \<in> keys g" by (simp add: item_in_graph_keys)
  from sp_loop_correct [OF assms(1) sp_inv_init [OF this]] assms(2,3)
  show ?thesis by (simp add: shortest_path_bfs_def)
qed

text \<open>The filtered search on a key that is not recognised.\<close>

lemma filter_by_key_bad_key:
  assumes "item_in_graph g a" "item_in_graph g b"
    and "key \<noteq> ''release date''" "key \<noteq> ''rating''"
  shows "filter_by_key g (a, b) key thresholds movies = Inl KeyError"
proof -
  from assms(1,2) obtain v1 v2 where v: "map_of g a = Some v1" "map_of g b = Some v2"
    by (auto simp: item_in_graph_def)
  show ?thesis
    unfolding filter_by_key_present [OF v] using assms(3,4) by simp
qed

lemma spf_visit_bad_key:
  assumes "item_in_graph g cur" and "key \<noteq> ''release date''" "key \<noteq> ''rating''"
  shows "\<forall>n \<in> set ns. item_in_graph g n \<Longrightarrow> \<exists>n \<in> set ns. n \<notin> visited \<Longrightarrow>
     spf_visit g key thresholds movies cur path ns (visited, queue) = Inl KeyError"
proof (induction ns)
  case Nil
  then show ?case by simp
next
  case (Cons n ns)
  show ?case
  proof (cases "n \<in> visited")
    case True
    with Cons show ?thesis by simp
  next
    case False
    from Cons.prems(1) have "item_in_graph g n" by simp
    then have "filter_by_key g (cur, n) key thresholds movies = Inl KeyError"
      by (rule filter_by_key_bad_key [OF assms(1) _ assms(2,3)])
    with False show ?thesis by simp
  qed
qed

text \<open>The distance search: what one pass of the inner loop does, and the loop.\<close>

lemma sd_visit_eq:
  "s \<in> visited \<Longrightarrow> cur \<in> visited \<Longrightarrow> distances cur = Some dc \<Longrightarrow>
   sd_visit s cur ns (visited, distances, queue) =
     Inr (visited \<union> set ns,
          (\<lambda>x. if x \<in> set ns - visited then Some (dc + 1) else distances x),
          queue @ fresh ns visited)"
proof (induction ns arbitrary: visited distances queue)
  case Nil
  then show ?case by simp
next
  case (Cons n ns)
  show ?case
  proof (cases "n \<in> visited")
    case True
    have "(\<lambda>x. if x \<in> set (n # ns) - visited then Some (dc + 1) else distances x)
        = (\<lambda>x. if x \<in> set ns - visited then Some (dc + 1) else distances x)"
      using True by auto
    moreover have "visited \<union> set (n # ns) = visited \<union> set ns" using True by auto
    ultimately show ?thesis
      using True Cons.IH [of visited distances queue, OF Cons.prems] by simp
  next
    case False
    with Cons.prems have ns: "n \<noteq> s" "n \<noteq> cur" by auto
    have d: "(distances(n \<mapsto> dc + 1)) cur = Some dc" using ns Cons.prems(3) by simp
    have f: "(\<lambda>x. if x \<in> set ns - insert n visited then Some (dc + 1)
               else (distances(n \<mapsto> dc + 1)) x)
        = (\<lambda>x. if x \<in> set (n # ns) - visited then Some (dc + 1) else distances x)"
      using False by auto
    have u: "insert n visited \<union> set ns = visited \<union> set (n # ns)" by auto
    have q: "(queue @ [n]) @ fresh ns (insert n visited) = queue @ fresh (n # ns) visited"
      using False by simp
    have step: "sd_visit s cur (n # ns) (visited, distances, queue) =
        sd_visit s cur ns (insert n visited, distances(n \<mapsto> dc + 1), queue @ [n])"
      using False ns Cons.prems(3) by simp
    have ih: "sd_visit s cur ns (insert n visited, distances(n \<mapsto> dc + 1), queue @ [n]) =
        Inr (insert n visited \<union> set ns,
             (\<lambda>x. if x \<in> set ns - insert n visited then Some (dc + 1)
                  else (distances(n \<mapsto> dc + 1)) x),
             (queue @ [n]) @ fresh ns (insert n visited))"
      using Cons.prems(1,2)
      by (intro Cons.IH [of "insert n visited" "distances(n \<mapsto> dc + 1)" "queue @ [n]", OF _ _ d])
        simp_all
    show ?thesis unfolding step ih f u q ..
  qed
qed

lemma dom_init_distances:
  "dom (map_of (map (\<lambda>(actor, v). (actor, \<infinity>::enat)) g)) = keys g"
  by (force simp: keys_def dom_map_of_conv_image_fst)

lemma init_distances:
  "x \<in> keys g \<Longrightarrow> map_of (map (\<lambda>(actor, v). (actor, \<infinity>::enat)) g) x = Some \<infinity>"
  by (auto simp: map_of_map keys_dom)

lemma sd_loop_total:
  "graph_wf g \<Longrightarrow> s \<in> visited \<Longrightarrow> set queue \<subseteq> visited \<Longrightarrow> visited \<subseteq> keys g \<Longrightarrow>
     dom distances = keys g \<Longrightarrow> \<forall>x \<in> keys g - visited. distances x = Some \<infinity> \<Longrightarrow>
     \<forall>x \<in> visited. \<exists>q. path_between g s x q \<Longrightarrow>
     \<exists>d. sd_loop g s queue visited distances = Inr d \<and> dom d = keys g
        \<and> (\<forall>x \<in> keys g. (\<forall>q. \<not> path_between g s x q) \<longrightarrow> d x = Some \<infinity>)"
proof (induction g s queue visited distances rule: sd_loop.induct)
  case (1 g s visited distances)
  then show ?case by auto
next
  case (2 g s cur queue visited distances)
  note wf = "2.prems"(1)
  from "2.prems" have cv: "cur \<in> visited" and ck: "cur \<in> keys g" by auto
  then obtain v where v: "map_of g cur = Some v" by (auto simp: keys_dom)
  from ck "2.prems"(5) obtain dc where dc: "distances cur = Some dc" by blast
  let ?ns = "neighbours v"
  let ?visited = "visited \<union> set ?ns"
  let ?distances = "\<lambda>x. if x \<in> set ?ns - visited then Some (dc + 1) else distances x"
  let ?queue = "queue @ fresh ?ns visited"
  note e = sd_visit_eq [of s visited cur distances dc ?ns queue, OF "2.prems"(2) cv dc]
  have nk: "set ?ns \<subseteq> keys g"
    using graph_wf_nbrs [OF wf, of _ cur] by (auto simp: nbrs_Some [OF v])
  have i1: "s \<in> ?visited" using "2.prems"(2) by simp
  have i2: "set ?queue \<subseteq> ?visited" using "2.prems"(3) by (auto simp: set_fresh)
  have i3: "?visited \<subseteq> keys g" using "2.prems"(4) nk by auto
  have i4: "dom ?distances = keys g"
    using "2.prems"(5) nk by (auto simp: dom_def split: if_splits)
  have i5: "\<forall>x \<in> keys g - ?visited. ?distances x = Some \<infinity>"
    using "2.prems"(6) by auto
  have i6: "\<forall>x \<in> ?visited. \<exists>q. path_between g s x q"
  proof
    fix x assume "x \<in> ?visited"
    then consider "x \<in> visited" | "x \<in> set ?ns" by auto
    then show "\<exists>q. path_between g s x q"
    proof cases
      case 1
      with "2.prems"(7) show ?thesis by blast
    next
      case 2
      from cv "2.prems"(7) obtain q where q: "path_between g s cur q" by blast
      from 2 nk have "adjacent g cur x" by (auto simp: adjacent_nbrs nbrs_Some [OF v])
      from path_between_snoc [OF q this] show ?thesis by blast
    qed
  qed
  from "2.IH" [OF v e refl refl wf i1 i2 i3 i4 i5 i6]
  show ?case using v e by simp
qed

lemma sd_loop_from_start:
  assumes "graph_wf g" and "item_in_graph g s"
  shows "\<exists>d. sd_loop g s [s] {s}
            ((map_of (map (\<lambda>(actor, v). (actor, \<infinity>::enat)) g))(s \<mapsto> 0)) = Inr d
     \<and> dom d = keys g
     \<and> (\<forall>x \<in> keys g. (\<forall>q. \<not> path_between g s x q) \<longrightarrow> d x = Some \<infinity>)"
proof -
  let ?d0 = "(map_of (map (\<lambda>(actor, v). (actor, \<infinity>::enat)) g))(s \<mapsto> 0)"
  from assms(2) have sk: "s \<in> keys g" by (simp add: item_in_graph_keys)
  have j4: "dom ?d0 = keys g" using sk by (auto simp: dom_init_distances)
  have j5: "\<forall>x \<in> keys g - {s}. ?d0 x = Some \<infinity>" by (simp add: init_distances)
  have j6: "\<forall>x \<in> {s}. \<exists>q. path_between g s x q"
    by (auto intro: exI [of _ "[s]"] path_between_single)
  from sd_loop_total [OF assms(1), of s "{s}" "[s]" ?d0, OF _ _ _ j4 j5 j6] sk
  show ?thesis by auto
qed

text \<open>The path search and the distance search take the same steps.\<close>

lemma sd_visit_keeps:
  "sd_visit s cur ns (visited, distances, queue) = Inr (visited', distances', queue') \<Longrightarrow>
     visited \<subseteq> visited' \<and> (\<forall>x \<in> visited. distances' x = distances x)"
proof (induction ns arbitrary: visited distances queue)
  case Nil
  then show ?case by simp
next
  case (Cons n ns)
  show ?case
  proof (cases "n \<noteq> s \<and> n \<notin> visited")
    case False
    with Cons.prems have "sd_visit s cur ns (visited, distances, queue)
        = Inr (visited', distances', queue')" by auto
    from Cons.IH [OF this] show ?thesis .
  next
    case True
    with Cons.prems obtain d where
      "sd_visit s cur ns (insert n visited, distances(n \<mapsto> d + 1), queue @ [n])
        = Inr (visited', distances', queue')"
      by (auto split: option.splits)
    from Cons.IH [OF this] True show ?thesis by auto
  qed
qed

lemma sd_loop_keeps:
  "x \<in> visited \<Longrightarrow> sd_loop g s queue visited distances = Inr d \<Longrightarrow> d x = distances x"
proof (induction g s queue visited distances rule: sd_loop.induct)
  case (1 g s visited distances)
  then show ?case by simp
next
  case (2 g s cur queue visited distances)
  from "2.prems"(2) obtain v where v: "map_of g cur = Some v"
    by (auto split: option.splits)
  with "2.prems"(2) obtain visited' distances' queue' where
    e: "sd_visit s cur (neighbours v) (visited, distances, queue) = Inr (visited', distances', queue')"
    and l: "sd_loop g s queue' visited' distances' = Inr d"
    by (auto split: sum.splits)
  from sd_visit_keeps [OF e] "2.prems"(1) have k: "x \<in> visited'" "distances' x = distances x"
    by auto
  from "2.IH" [OF v e refl refl k(1) l] k(2) show ?case by simp
qed

lemma sp_sd_agree:
  "s \<in> visited \<Longrightarrow>
   \<forall>(v, p) \<in> set queue. v \<in> visited \<and> p \<noteq> [] \<and> distances v = Some (enat (length p - 1)) \<Longrightarrow>
   sp_loop g t queue visited = Inr p \<Longrightarrow> p \<noteq> [] \<Longrightarrow>
   sd_loop g s (map fst queue) visited distances = Inr d \<Longrightarrow>
     d t = Some (enat (length p - 1))"
proof (induction g t queue visited arbitrary: distances rule: sp_loop.induct)
  case (1 g t visited)
  then show ?case by simp
next
  case (2 g t cur path queue visited)
  from "2.prems"(2) have c: "cur \<in> visited" "path \<noteq> []"
      "distances cur = Some (enat (length path - 1))"
    and r: "\<forall>(v, p) \<in> set queue. v \<in> visited \<and> p \<noteq> []
        \<and> distances v = Some (enat (length p - 1))"
    by simp_all
  show ?case
  proof (cases "cur = t")
    case True
    with "2.prems"(3) have "p = path" by simp
    moreover have "sd_loop g s (cur # map fst queue) visited distances = Inr d"
      using "2.prems"(5) by (simp del: sd_loop.simps)
    from sd_loop_keeps [OF c(1) this] have "d cur = distances cur" .
    ultimately show ?thesis using True c(3) by simp
  next
    case False
    with "2.prems"(3) obtain v where v: "map_of g cur = Some v"
      by (auto split: option.splits)
    let ?ns = "neighbours v"
    let ?queue = "queue @ map (\<lambda>n. (n, path @ [n])) (fresh ?ns visited)"
    let ?visited = "visited \<union> set ?ns"
    let ?dc = "enat (length path - 1)"
    let ?distances = "\<lambda>x. if x \<in> set ?ns - visited then Some (?dc + 1) else distances x"
    have e: "(?visited, ?queue) = sp_visit path ?ns (visited, queue)"
      by (simp add: sp_visit_eq)
    have sp: "sp_loop g t ?queue ?visited = Inr p"
      using "2.prems"(3) False v by (simp add: sp_visit_eq)
    have mq: "map fst ?queue = map fst queue @ fresh ?ns visited"
      by (simp add: comp_def)
    have sd: "sd_loop g s (map fst ?queue) ?visited ?distances = Inr d"
      using "2.prems"(5) v sd_visit_eq [of s visited cur distances ?dc ?ns "map fst queue",
          OF "2.prems"(1) c(1) c(3)]
      unfolding mq by simp
    have i1: "s \<in> ?visited" using "2.prems"(1) by simp
    have pl: "?dc + 1 = enat (length path)"
      using c(2) by (cases path) (simp_all add: one_enat_def)
    have i2: "\<forall>(v, p) \<in> set ?queue. v \<in> ?visited \<and> p \<noteq> []
        \<and> ?distances v = Some (enat (length p - 1))"
      using r pl by (auto simp: set_fresh)
    from "2.IH" [OF False v e i1 i2 sp "2.prems"(4) sd] show ?thesis .
  qed
qed

text \<open>Every path the filtered search queues is a walk of the graph.\<close>

lemma spf_visit_entries:
  "spf_visit g key thresholds movies cur path ns (visited, queue) = Inr (visited', queue') \<Longrightarrow>
     set queue' \<subseteq> set queue \<union> (\<lambda>n. (n, path @ [n])) ` set ns"
proof (induction ns arbitrary: visited queue)
  case Nil
  then show ?case by simp
next
  case (Cons n ns)
  show ?case
  proof (cases "n \<in> visited")
    case True
    with Cons.prems have "spf_visit g key thresholds movies cur path ns (visited, queue)
        = Inr (visited', queue')" by simp
    from Cons.IH [OF this] show ?thesis by auto
  next
    case False
    with Cons.prems obtain is_valid common where
      r: "spf_visit g key thresholds movies cur path ns
           (sp_bfs_filtered_helper is_valid visited n (queue, path)) = Inr (visited', queue')"
      by (auto split: sum.splits)
    show ?thesis
    proof (cases is_valid)
      case True
      with r have "spf_visit g key thresholds movies cur path ns
           (insert n visited, queue @ [(n, path @ [n])]) = Inr (visited', queue')"
        by (simp add: sp_bfs_filtered_helper_def)
      from Cons.IH [OF this] show ?thesis by auto
    next
      case False
      with r have "spf_visit g key thresholds movies cur path ns (visited, queue)
           = Inr (visited', queue')"
        by (simp add: sp_bfs_filtered_helper_def)
      from Cons.IH [OF this] show ?thesis by auto
    qed
  qed
qed

lemma spf_loop_sound:
  "graph_wf g \<Longrightarrow> \<forall>(v, p) \<in> set queue. v \<in> keys g \<and> path_between g s v p \<Longrightarrow>
   spf_loop g key thresholds movies t queue visited = Inr p \<Longrightarrow> p \<noteq> [] \<Longrightarrow>
     path_between g s t p"
proof (induction g key thresholds movies t queue visited rule: spf_loop.induct)
  case (1 g key thresholds movies t visited)
  then show ?case by simp
next
  case (2 g key thresholds movies t cur path queue visited)
  from "2.prems"(2) have c: "cur \<in> keys g" "path_between g s cur path"
    and r: "\<forall>(v, p) \<in> set queue. v \<in> keys g \<and> path_between g s v p"
    by simp_all
  show ?case
  proof (cases "cur = t")
    case True
    with "2.prems"(3) c(2) show ?thesis by simp
  next
    case False
    with "2.prems"(3) obtain v where v: "map_of g cur = Some v"
      by (auto split: option.splits)
    with "2.prems"(3) False obtain visited' queue' where
      e: "spf_visit g key thresholds movies cur path (neighbours v) (visited, queue)
            = Inr (visited', queue')"
      and l: "spf_loop g key thresholds movies t queue' visited' = Inr p"
      by (auto split: sum.splits)
    have "\<forall>(x, px) \<in> set queue'. x \<in> keys g \<and> path_between g s x px"
    proof (clarify)
      fix x px assume "(x, px) \<in> set queue'"
      with spf_visit_entries [OF e]
      consider "(x, px) \<in> set queue" | "x \<in> set (neighbours v)" "px = path @ [x]" by auto
      then show "x \<in> keys g \<and> path_between g s x px"
      proof cases
        case 1
        with r show ?thesis by auto
      next
        case 2
        from 2(1) have n: "x \<in> nbrs g cur" by (simp add: nbrs_Some [OF v])
        from graph_wf_nbrs [OF "2.prems"(1) n] have k: "x \<in> keys g" .
        with n have "adjacent g cur x" by (simp add: adjacent_nbrs)
        from path_between_snoc [OF c(2) this] k 2(2) show ?thesis by simp
      qed
    qed
    from "2.IH" [OF False v e refl "2.prems"(1) this l "2.prems"(4)] show ?thesis .
  qed
qed

section \<open>Graph.add_sim_score on a movie that is not a vertex\<close>

text \<open>
  C9: when \<open>movie\<close> is a key of the score mapping but not a vertex of the graph,
  \<open>add_sim_score\<close> fails with \<open>KeyError\<close>; it does not return a graph.
\<close>

theorem add_sim_score_absent_vertex:
  "sim_scores movie \<noteq> None \<Longrightarrow> \<not> item_in_graph g movie \<Longrightarrow>
     add_sim_score g movie sim_scores = Inl KeyError"
  by (auto simp: add_sim_score_def item_in_graph_def)

theorem add_sim_score_absent_vertex_witness:
  "[''b'' \<mapsto> (1/2 :: real)] ''b'' \<noteq> None
   \<and> \<not> item_in_graph [(''a'', Vertex_init ''a'' ''movie'')] ''b''
   \<and> add_sim_score [(''a'', Vertex_init ''a'' ''movie'')] ''b'' [''b'' \<mapsto> 1/2] = Inl KeyError"
  using add_sim_score_absent_vertex
    [of "[''b'' \<mapsto> (1/2 :: real)]" "''b''" "[(''a'', Vertex_init ''a'' ''movie'')]"]
  by (simp add: item_in_graph_def)

section \<open>The edge invariant of graphs built by the mutations\<close>

text \<open>
  C7: every graph reachable from the empty graph by \<open>add_vertex\<close>, \<open>add_edge\<close> on two
  distinct items, \<open>add_appearances\<close> and \<open>add_sim_score\<close> satisfies the edge
  invariant: no vertex is in its own neighbour set, and each neighbour of a
  vertex has that vertex among its own neighbours.
\<close>

theorem reachable_edge_invariant: "reachable_graph g \<Longrightarrow> edge_invariant g"
  unfolding edge_invariant_def
proof (clarify)
  fix k v assume r: "reachable_graph g" and kv: "(k, v) \<in> set g"
  have n: "nbrs g k = set (neighbours v)"
    by (rule pair_nbrs [OF reachable_distinct [OF r] kv])
  have kk: "k \<in> keys g" using kv by (force simp: keys_def)
  from reachable_nbrs [OF r, of k] n kk
  show "k \<notin> set (neighbours v) \<and> (\<forall>u \<in> set (neighbours v). adjacent g u k)"
    by (simp add: adjacent_nbrs)
qed

theorem reachable_edge_invariant_witness:
  "reachable_graph
     (add_neighbour (add_neighbour
        (add_vertex (add_vertex Graph_init (1::nat) ''actor'') 2 ''actor'') 1 2) 2 1)
   \<and> edge_invariant
     (add_neighbour (add_neighbour
        (add_vertex (add_vertex Graph_init (1::nat) ''actor'') 2 ''actor'') 1 2) 2 1)"
proof -
  have r: "reachable_graph (add_vertex (add_vertex Graph_init (1::nat) ''actor'') 2 ''actor'')"
    by (intro reach_vertex reach_init)
  have e: "add_edge (add_vertex (add_vertex Graph_init (1::nat) ''actor'') 2 ''actor'') 1 2
      = Inr (add_neighbour (add_neighbour
          (add_vertex (add_vertex Graph_init (1::nat) ''actor'') 2 ''actor'') 1 2) 2 1)"
    by (simp add: add_edge_def add_vertex_def item_in_graph_def Graph_init_def)
  have "reachable_graph
     (add_neighbour (add_neighbour
        (add_vertex (add_vertex Graph_init (1::nat) ''actor'') 2 ''actor'') 1 2) 2 1)"
    by (rule reach_edge [OF r _ e]) simp
  then show ?thesis using reachable_edge_invariant by blast
qed

section \<open>The recommendation graph is a star\<close>



section \<open>The actor graph joins exactly the actors that share a movie\<close>

text \<open>
  C2: \<open>create_actor_graph\<close> returns a graph, and in it two distinct actors are
  adjacent if and only if the cast of some movie of the mapping contains both.
\<close>

theorem actor_graph_adjacent_iff_share:
  "\<exists>g. create_actor_graph movies = Inr g
     \<and> (\<forall>a b. a \<noteq> b \<longrightarrow>
          (adjacent g a b \<longleftrightarrow>
             (\<exists>m cast. movie_cast movies m = Some cast \<and> a \<in> set cast \<and> b \<in> set cast)))"
proof -
  have "\<forall>m \<in> set (map fst movies). movie_cast movies m \<noteq> None"
    by (simp add: movie_cast_def map_of_eq_None_iff)
  from movie_loop_effect [OF this, of Graph_init]
  obtain g where g: "movie_loop movies Graph_init (map fst movies) = Inr g"
      "\<forall>x. x \<in> keys g \<longleftrightarrow> x \<in> keys Graph_init \<or> share movies (set (map fst movies)) x x"
      "\<forall>x. nbrs g x = nbrs Graph_init x \<union> {y. y \<noteq> x \<and> share movies (set (map fst movies)) x y}"
    by blast
  have sh: "\<And>x y. share movies (set (map fst movies)) x y \<longleftrightarrow>
     (\<exists>m cast. movie_cast movies m = Some cast \<and> x \<in> set cast \<and> y \<in> set cast)"
  proof
    fix x y assume "share movies (set (map fst movies)) x y"
    then show "\<exists>m cast. movie_cast movies m = Some cast \<and> x \<in> set cast \<and> y \<in> set cast"
      unfolding share_def by blast
  next
    fix x y
    assume "\<exists>m cast. movie_cast movies m = Some cast \<and> x \<in> set cast \<and> y \<in> set cast"
    then obtain m cast where m: "movie_cast movies m = Some cast" "x \<in> set cast" "y \<in> set cast"
      by blast
    from m(1) have "map_of movies m \<noteq> None" by (auto simp: movie_cast_def)
    then have "m \<in> set (map fst movies)" by (simp add: map_of_eq_None_iff)
    with m show "share movies (set (map fst movies)) x y"
      unfolding share_def by blast
  qed
  have "\<forall>a b. a \<noteq> b \<longrightarrow>
          (adjacent g a b \<longleftrightarrow>
             (\<exists>m cast. movie_cast movies m = Some cast \<and> a \<in> set cast \<and> b \<in> set cast))"
    using g(2,3) unfolding sh adjacent_nbrs keys_Graph_init nbrs_Graph_init by auto
  with g(1) show ?thesis by (auto simp: create_actor_graph_def)
qed

theorem actor_graph_adjacent_iff_share_witness:
  "\<exists>g. create_actor_graph
          [(''M1'', ([''a1'', ''a2''], (1990, 200, 8.1))), (''M2'', ([''a1'', ''a4''], (1990, 200, 6)))]
        = Inr g
     \<and> ''a1'' \<noteq> ''a2'' \<and> adjacent g ''a1'' ''a2''
     \<and> ''a2'' \<noteq> ''a4'' \<and> \<not> adjacent g ''a2'' ''a4''"
proof -
  let ?M = "[(''M1'', ([''a1'', ''a2''], (1990, 200, 8.1))), (''M2'', ([''a1'', ''a4''], (1990, 200, 6)))]
    :: string movies"
  from actor_graph_adjacent_iff_share [of ?M]
  obtain g where g: "create_actor_graph ?M = Inr g"
    and adj: "\<And>a b. a \<noteq> b \<Longrightarrow> adjacent g a b \<longleftrightarrow>
       (\<exists>m cast. movie_cast ?M m = Some cast \<and> a \<in> set cast \<and> b \<in> set cast)"
    by blast
  have "movie_cast ?M ''M1'' = Some [''a1'', ''a2'']" by (simp add: movie_cast_def)
  then have "\<exists>m cast. movie_cast ?M m = Some cast \<and> ''a1'' \<in> set cast \<and> ''a2'' \<in> set cast"
    by (intro exI [of _ "''M1''"] exI [of _ "[''a1'', ''a2'']"]) simp
  then have p: "adjacent g ''a1'' ''a2''" using adj [of "''a1''" "''a2''"] by simp
  have "\<not> (\<exists>m cast. movie_cast ?M m = Some cast \<and> ''a2'' \<in> set cast \<and> ''a4'' \<in> set cast)"
    by (auto simp: movie_cast_def split: if_splits)
  then have n: "\<not> adjacent g ''a2'' ''a4''" using adj [of "''a2''" "''a4''"] by simp
  show ?thesis using g p n by (intro exI [of _ g]) simp
qed

section \<open>A common movie without a record\<close>



section \<open>No path is not an error\<close>

text \<open>
  C4: \<open>shortest_path_bfs\<close> fails with \<open>ValueError\<close> when the start or the target is
  not a vertex; when both are vertices and no walk joins them it returns the empty
  list.
\<close>

theorem shortest_path_bfs_no_path_vs_invalid:
  "(\<not> item_in_graph g s \<or> \<not> item_in_graph g t \<longrightarrow> shortest_path_bfs g s t = Inl ValueError)
   \<and> (graph_wf g \<and> item_in_graph g s \<and> item_in_graph g t \<and> (\<forall>q. \<not> path_between g s t q)
        \<longrightarrow> shortest_path_bfs g s t = Inr [])"
proof (intro conjI impI)
  assume "\<not> item_in_graph g s \<or> \<not> item_in_graph g t"
  then show "shortest_path_bfs g s t = Inl ValueError"
    by (simp add: shortest_path_bfs_def)
next
  assume a: "graph_wf g \<and> item_in_graph g s \<and> item_in_graph g t \<and> (\<forall>q. \<not> path_between g s t q)"
  then obtain p where p: "shortest_path_bfs g s t = Inr p" "sp_result g s t p"
    using shortest_path_bfs_result [of g s t] by blast
  have "p = []"
  proof (rule ccontr)
    assume "p \<noteq> []"
    with p(2) have "path_between g s t p" by (simp add: sp_result_def)
    with a show False by blast
  qed
  with p(1) show "shortest_path_bfs g s t = Inr []" by simp
qed

theorem shortest_path_bfs_no_path_vs_invalid_witness:
  "graph_wf [(1::nat, Vertex_init 1 ''actor''), (5, Vertex_init 5 ''actor'')]
   \<and> item_in_graph [(1::nat, Vertex_init 1 ''actor''), (5, Vertex_init 5 ''actor'')] 1
   \<and> item_in_graph [(1::nat, Vertex_init 1 ''actor''), (5, Vertex_init 5 ''actor'')] 5
   \<and> (\<forall>q. \<not> path_between [(1::nat, Vertex_init 1 ''actor''), (5, Vertex_init 5 ''actor'')] 1 5 q)
   \<and> shortest_path_bfs [(1::nat, Vertex_init 1 ''actor''), (5, Vertex_init 5 ''actor'')] 1 5 = Inr []
   \<and> \<not> item_in_graph [(1::nat, Vertex_init 1 ''actor''), (5, Vertex_init 5 ''actor'')] 7
   \<and> shortest_path_bfs [(1::nat, Vertex_init 1 ''actor''), (5, Vertex_init 5 ''actor'')] 1 7 = Inl ValueError"
proof -
  let ?G = "[(1::nat, Vertex_init 1 ''actor''), (5, Vertex_init 5 ''actor'')]"
  have w: "graph_wf ?G" by (simp add: graph_wf_def Vertex_init_def)
  have i: "item_in_graph ?G 1" "item_in_graph ?G 5" "\<not> item_in_graph ?G 7"
    by (simp_all add: item_in_graph_def)
  have n: "\<forall>q. \<not> path_between ?G 1 5 q"
  proof (intro allI notI)
    fix q assume q: "path_between ?G 1 5 q"
    have "\<forall>u \<in> {1}. nbrs ?G u \<subseteq> {1}" by (simp add: nbrs_def Vertex_init_def)
    from closed_reach [OF _ this q] show False by simp
  qed
  from shortest_path_bfs_no_path_vs_invalid [of ?G 1 5] w i n
  have r: "shortest_path_bfs ?G 1 5 = Inr []" by blast
  from shortest_path_bfs_no_path_vs_invalid [of ?G 1 7] i
  have e: "shortest_path_bfs ?G 1 7 = Inl ValueError" by blast
  show ?thesis by (intro conjI w i n r e)
qed

section \<open>Errors of the filtered search\<close>

text \<open>
  C5, as the code has it: \<open>shortest_path_bfs_filtered\<close> fails with \<open>ValueError\<close> when
  the start or the target is not a vertex. With both present and a key other than
  \<open>release date\<close> and \<open>rating\<close>, it fails with \<open>KeyError\<close> when the start differs
  from the target and has a neighbour other than itself: the key is inspected
  only by \<open>filter_by_key\<close>, which is called when an edge to an unvisited neighbour is
  examined.
\<close>

theorem shortest_path_bfs_filtered_errors:
  "(\<not> item_in_graph g s \<or> \<not> item_in_graph g t \<longrightarrow>
      shortest_path_bfs_filtered g (s, t) key thresholds movies = Inl ValueError)
   \<and> (graph_wf g \<and> item_in_graph g s \<and> item_in_graph g t
        \<and> key \<noteq> ''release date'' \<and> key \<noteq> ''rating''
        \<and> s \<noteq> t \<and> get_neighbours g s = Inr ns \<and> ns - {s} \<noteq> {} \<longrightarrow>
      shortest_path_bfs_filtered g (s, t) key thresholds movies = Inl KeyError)"
proof (intro conjI impI)
  assume "\<not> item_in_graph g s \<or> \<not> item_in_graph g t"
  then show "shortest_path_bfs_filtered g (s, t) key thresholds movies = Inl ValueError"
    by (simp add: shortest_path_bfs_filtered_def)
next
  assume a: "graph_wf g \<and> item_in_graph g s \<and> item_in_graph g t
        \<and> key \<noteq> ''release date'' \<and> key \<noteq> ''rating''
        \<and> s \<noteq> t \<and> get_neighbours g s = Inr ns \<and> ns - {s} \<noteq> {}"
  then obtain v where v: "map_of g s = Some v" and ns: "ns = set (neighbours v)"
    by (auto simp: get_neighbours_def split: option.splits)
  from a have wf: "graph_wf g" and i: "item_in_graph g s" "item_in_graph g t"
    and k: "key \<noteq> ''release date''" "key \<noteq> ''rating''" and st: "s \<noteq> t"
    and ne: "ns - {s} \<noteq> {}" by simp_all
  have "\<forall>n \<in> set (neighbours v). item_in_graph g n"
    using graph_wf_nbrs [OF wf, of _ s] by (simp add: nbrs_Some [OF v] item_in_graph_keys)
  moreover have "\<exists>n \<in> set (neighbours v). n \<notin> {s}" using ne ns by auto
  ultimately have "spf_visit g key (fst thresholds, snd thresholds) movies s [s] (neighbours v) ({s}, [])
      = Inl KeyError"
    by (rule spf_visit_bad_key [OF i(1) k])
  with i st v show "shortest_path_bfs_filtered g (s, t) key thresholds movies = Inl KeyError"
    by (simp add: shortest_path_bfs_filtered_def)
qed

theorem shortest_path_bfs_filtered_errors_witness:
  "\<not> item_in_graph
      [(1::nat, (Vertex_init 1 ''actor'')\<lparr>neighbours := [2]\<rparr>),
       (2, (Vertex_init 2 ''actor'')\<lparr>neighbours := [1]\<rparr>)] 7
   \<and> shortest_path_bfs_filtered
      [(1::nat, (Vertex_init 1 ''actor'')\<lparr>neighbours := [2]\<rparr>),
       (2, (Vertex_init 2 ''actor'')\<lparr>neighbours := [1]\<rparr>)]
      (1, 7) ''year'' (0, 1) ([] :: nat movies) = Inl ValueError
   \<and> graph_wf
      [(1::nat, (Vertex_init 1 ''actor'')\<lparr>neighbours := [2]\<rparr>),
       (2, (Vertex_init 2 ''actor'')\<lparr>neighbours := [1]\<rparr>)]
   \<and> item_in_graph
      [(1::nat, (Vertex_init 1 ''actor'')\<lparr>neighbours := [2]\<rparr>),
       (2, (Vertex_init 2 ''actor'')\<lparr>neighbours := [1]\<rparr>)] 1
   \<and> item_in_graph
      [(1::nat, (Vertex_init 1 ''actor'')\<lparr>neighbours := [2]\<rparr>),
       (2, (Vertex_init 2 ''actor'')\<lparr>neighbours := [1]\<rparr>)] 2
   \<and> ''year'' \<noteq> ''release date'' \<and> ''year'' \<noteq> ''rating'' \<and> (1::nat) \<noteq> 2
   \<and> get_neighbours
      [(1::nat, (Vertex_init 1 ''actor'')\<lparr>neighbours := [2]\<rparr>),
       (2, (Vertex_init 2 ''actor'')\<lparr>neighbours := [1]\<rparr>)] 1 = Inr {2}
   \<and> {2} - {1::nat} \<noteq> {}
   \<and> shortest_path_bfs_filtered
      [(1::nat, (Vertex_init 1 ''actor'')\<lparr>neighbours := [2]\<rparr>),
       (2, (Vertex_init 2 ''actor'')\<lparr>neighbours := [1]\<rparr>)]
      (1, 2) ''year'' (0, 1) ([] :: nat movies) = Inl KeyError"
proof -
  let ?G = "[(1::nat, (Vertex_init 1 ''actor'')\<lparr>neighbours := [2]\<rparr>),
       (2, (Vertex_init 2 ''actor'')\<lparr>neighbours := [1]\<rparr>)]"
  have w: "graph_wf ?G" by (simp add: graph_wf_def Vertex_init_def item_in_graph_def)
  have i: "\<not> item_in_graph ?G 7" "item_in_graph ?G 1" "item_in_graph ?G 2"
    by (simp_all add: item_in_graph_def)
  have k: "''year'' \<noteq> ''release date''" "''year'' \<noteq> ''rating''" "(1::nat) \<noteq> 2" by simp_all
  have n: "get_neighbours ?G 1 = Inr {2}" "{2} - {1::nat} \<noteq> {}"
    by (simp_all add: get_neighbours_def Vertex_init_def)
  from shortest_path_bfs_filtered_errors [of ?G 1 7 "''year''" "(0, 1)" "[] :: nat movies"] i(1)
  have e: "shortest_path_bfs_filtered ?G (1, 7) ''year'' (0, 1) ([] :: nat movies) = Inl ValueError"
    by blast
  from shortest_path_bfs_filtered_errors
    [of ?G 1 2 "''year''" "(0, 1)" "[] :: nat movies" "{2}"] w i(2,3) k n
  have r: "shortest_path_bfs_filtered ?G (1, 2) ''year'' (0, 1) ([] :: nat movies) = Inl KeyError"
    by blast
  show ?thesis by (intro conjI w i k n e r)
qed

text \<open>
  The claim as stated fails when the start is the target: the search returns the
  one-element path and never inspects the key.
\<close>

theorem shortest_path_bfs_filtered_bad_key_counterexample:
  "item_in_graph [(1::nat, Vertex_init 1 ''actor'')] 1
   \<and> ''year'' \<noteq> ''release date'' \<and> ''year'' \<noteq> ''rating''
   \<and> shortest_path_bfs_filtered [(1::nat, Vertex_init 1 ''actor'')] (1, 1) ''year'' (0, 1)
        ([] :: nat movies) = Inr [1]"
  by (simp add: shortest_path_bfs_filtered_def item_in_graph_def)

section \<open>The entries of the distance mapping\<close>

text \<open>
  C6: on a graph whose neighbour references are vertices, for a present start
  \<open>shortest_distance_bfs\<close> returns a mapping whose keys are exactly the vertices
  other than the start, and every vertex that no walk from the start reaches is
  mapped to the infinite distance.
\<close>

theorem shortest_distance_bfs_entries:
  assumes "graph_wf g" and "item_in_graph g s"
  shows "\<exists>d. shortest_distance_bfs g s = Inr d
     \<and> (\<forall>x. d x \<noteq> None \<longleftrightarrow> item_in_graph g x \<and> x \<noteq> s)
     \<and> (\<forall>x. item_in_graph g x \<and> (\<forall>q. \<not> path_between g s x q) \<longrightarrow> d x = Some \<infinity>)"
proof -
  let ?d0 = "(map_of (map (\<lambda>(actor, v). (actor, \<infinity>::enat)) g))(s \<mapsto> 0)"
  from sd_loop_from_start [OF assms]
  obtain d where d: "sd_loop g s [s] {s} ?d0 = Inr d" "dom d = keys g"
    "\<forall>x \<in> keys g. (\<forall>q. \<not> path_between g s x q) \<longrightarrow> d x = Some \<infinity>"
    by blast
  let ?r = "\<lambda>actor. if actor \<noteq> s then d actor else None"
  have r: "shortest_distance_bfs g s = Inr ?r"
    using assms(2) d(1) by (simp add: shortest_distance_bfs_def)
  have a: "\<forall>x. ?r x \<noteq> None \<longleftrightarrow> item_in_graph g x \<and> x \<noteq> s"
    using d(2) by (auto simp: item_in_graph_keys)
  have "\<not> (\<forall>q. \<not> path_between g s s q)" using path_between_single [of g s] by blast
  then have b: "\<forall>x. item_in_graph g x \<and> (\<forall>q. \<not> path_between g s x q) \<longrightarrow> ?r x = Some \<infinity>"
    using d(3) by (auto simp: item_in_graph_keys)
  from r a b show ?thesis by blast
qed

theorem shortest_distance_bfs_entries_witness:
  "graph_wf
     [(1::nat, (Vertex_init 1 ''actor'')\<lparr>neighbours := [2]\<rparr>),
      (2, (Vertex_init 2 ''actor'')\<lparr>neighbours := [1]\<rparr>), (5, Vertex_init 5 ''actor'')]
   \<and> item_in_graph
     [(1::nat, (Vertex_init 1 ''actor'')\<lparr>neighbours := [2]\<rparr>),
      (2, (Vertex_init 2 ''actor'')\<lparr>neighbours := [1]\<rparr>), (5, Vertex_init 5 ''actor'')] 1
   \<and> (\<exists>d. shortest_distance_bfs
     [(1::nat, (Vertex_init 1 ''actor'')\<lparr>neighbours := [2]\<rparr>),
      (2, (Vertex_init 2 ''actor'')\<lparr>neighbours := [1]\<rparr>), (5, Vertex_init 5 ''actor'')] 1 = Inr d
     \<and> (\<forall>x. d x \<noteq> None \<longleftrightarrow> item_in_graph
     [(1::nat, (Vertex_init 1 ''actor'')\<lparr>neighbours := [2]\<rparr>),
      (2, (Vertex_init 2 ''actor'')\<lparr>neighbours := [1]\<rparr>), (5, Vertex_init 5 ''actor'')] x \<and> x \<noteq> 1)
     \<and> (\<forall>x. item_in_graph
     [(1::nat, (Vertex_init 1 ''actor'')\<lparr>neighbours := [2]\<rparr>),
      (2, (Vertex_init 2 ''actor'')\<lparr>neighbours := [1]\<rparr>), (5, Vertex_init 5 ''actor'')] x \<and> (\<forall>q. \<not> path_between
     [(1::nat, (Vertex_init 1 ''actor'')\<lparr>neighbours := [2]\<rparr>),
      (2, (Vertex_init 2 ''actor'')\<lparr>neighbours := [1]\<rparr>), (5, Vertex_init 5 ''actor'')] 1 x q) \<longrightarrow> d x = Some \<infinity>))"
proof -
  let ?G = "[(1::nat, (Vertex_init 1 ''actor'')\<lparr>neighbours := [2]\<rparr>),
      (2, (Vertex_init 2 ''actor'')\<lparr>neighbours := [1]\<rparr>), (5, Vertex_init 5 ''actor'')]"
  have w: "graph_wf ?G" by (simp add: graph_wf_def Vertex_init_def item_in_graph_def)
  have i: "item_in_graph ?G 1" by (simp add: item_in_graph_def)
  show ?thesis by (intro conjI w i shortest_distance_bfs_entries [OF w i])
qed

section \<open>The path search returns a shortest walk\<close>

text \<open>
  C1, as the code has it: on a graph whose neighbour references are vertices, when
  the target is reachable from the start, \<open>shortest_path_bfs\<close> returns a walk from
  start to target (it begins with the start, ends with the target and has
  consecutive elements adjacent) that is no longer than any other such walk; and
  when the target is not the start, its number of hops is the entry of the target
  in the mapping returned by \<open>shortest_distance_bfs\<close>.
\<close>

theorem shortest_path_bfs_shortest:
  assumes "graph_wf g" and "item_in_graph g s" and "item_in_graph g t"
    and "path_between g s t q0"
  shows "\<exists>p. shortest_path_bfs g s t = Inr p
     \<and> path_between g s t p
     \<and> (\<forall>q. path_between g s t q \<longrightarrow> length p \<le> length q)
     \<and> (s \<noteq> t \<longrightarrow> distance_lookup g s t = Inr (enat (length p - 1)))"
proof -
  from shortest_path_bfs_result [OF assms(1,2,3)]
  obtain p where p: "shortest_path_bfs g s t = Inr p" "sp_result g s t p" by blast
  from p(2) assms(4) have ne: "p \<noteq> []" and pb: "path_between g s t p"
    and mn: "\<forall>q. path_between g s t q \<longrightarrow> length p \<le> length q"
    unfolding sp_result_def by (auto split: if_splits)
  have "distance_lookup g s t = Inr (enat (length p - 1))" if st: "s \<noteq> t"
  proof -
    let ?d0 = "(map_of (map (\<lambda>(actor, v). (actor, \<infinity>::enat)) g))(s \<mapsto> 0)"
    from sd_loop_from_start [OF assms(1,2)]
    obtain d where d: "sd_loop g s [s] {s} ?d0 = Inr d" by blast
    let ?r = "\<lambda>actor. if actor \<noteq> s then d actor else None"
    have r: "shortest_distance_bfs g s = Inr ?r"
      using assms(2) d by (simp add: shortest_distance_bfs_def)
    from p(1) assms(2,3) have sp: "sp_loop g t [(s, [s])] {s} = Inr p"
      by (simp add: shortest_path_bfs_def)
    have i: "\<forall>(v, p) \<in> set [(s, [s])]. v \<in> {s} \<and> p \<noteq> []
        \<and> ?d0 v = Some (enat (length p - 1))"
      by (simp add: zero_enat_def)
    have "sd_loop g s (map fst [(s, [s])]) {s} ?d0 = Inr d" using d by simp
    from sp_sd_agree [OF _ i sp ne this] have "d t = Some (enat (length p - 1))" by simp
    with r st show ?thesis by (simp add: distance_lookup_def)
  qed
  with p(1) pb mn show ?thesis by blast
qed

theorem shortest_path_bfs_shortest_witness:
  "graph_wf
     [(1::nat, (Vertex_init 1 ''actor'')\<lparr>neighbours := [2]\<rparr>),
      (2, (Vertex_init 2 ''actor'')\<lparr>neighbours := [1]\<rparr>)]
   \<and> item_in_graph
     [(1::nat, (Vertex_init 1 ''actor'')\<lparr>neighbours := [2]\<rparr>),
      (2, (Vertex_init 2 ''actor'')\<lparr>neighbours := [1]\<rparr>)] 1
   \<and> item_in_graph
     [(1::nat, (Vertex_init 1 ''actor'')\<lparr>neighbours := [2]\<rparr>),
      (2, (Vertex_init 2 ''actor'')\<lparr>neighbours := [1]\<rparr>)] 2
   \<and> path_between
     [(1::nat, (Vertex_init 1 ''actor'')\<lparr>neighbours := [2]\<rparr>),
      (2, (Vertex_init 2 ''actor'')\<lparr>neighbours := [1]\<rparr>)] 1 2 [1, 2]
   \<and> (\<exists>p. shortest_path_bfs
     [(1::nat, (Vertex_init 1 ''actor'')\<lparr>neighbours := [2]\<rparr>),
      (2, (Vertex_init 2 ''actor'')\<lparr>neighbours := [1]\<rparr>)] 1 2 = Inr p
     \<and> path_between
     [(1::nat, (Vertex_init 1 ''actor'')\<lparr>neighbours := [2]\<rparr>),
      (2, (Vertex_init 2 ''actor'')\<lparr>neighbours := [1]\<rparr>)] 1 2 p
     \<and> (\<forall>q. path_between
     [(1::nat, (Vertex_init 1 ''actor'')\<lparr>neighbours := [2]\<rparr>),
      (2, (Vertex_init 2 ''actor'')\<lparr>neighbours := [1]\<rparr>)] 1 2 q \<longrightarrow> length p \<le> length q)
     \<and> ((1::nat) \<noteq> 2 \<longrightarrow> distance_lookup
     [(1::nat, (Vertex_init 1 ''actor'')\<lparr>neighbours := [2]\<rparr>),
      (2, (Vertex_init 2 ''actor'')\<lparr>neighbours := [1]\<rparr>)] 1 2 = Inr (enat (length p - 1))))"
proof -
  let ?G = "[(1::nat, (Vertex_init 1 ''actor'')\<lparr>neighbours := [2]\<rparr>),
      (2, (Vertex_init 2 ''actor'')\<lparr>neighbours := [1]\<rparr>)]"
  have w: "graph_wf ?G" by (simp add: graph_wf_def Vertex_init_def item_in_graph_def)
  have i: "item_in_graph ?G 1" "item_in_graph ?G 2" by (simp_all add: item_in_graph_def)
  have q: "path_between ?G 1 2 [1, 2]"
    by (simp add: path_between_def adjacent_def item_in_graph_def Vertex_init_def)
  show ?thesis by (intro conjI w i q shortest_path_bfs_shortest [OF w i q])
qed

text \<open>
  The claim as stated fails when the target is the start: the distance mapping has
  no entry for the start, so the subscript raises.
\<close>

theorem shortest_path_bfs_start_is_target_counterexample:
  "graph_wf [(1::nat, Vertex_init 1 ''actor'')]
   \<and> item_in_graph [(1::nat, Vertex_init 1 ''actor'')] 1
   \<and> path_between [(1::nat, Vertex_init 1 ''actor'')] 1 1 [1]
   \<and> shortest_path_bfs [(1::nat, Vertex_init 1 ''actor'')] 1 1 = Inr [1]
   \<and> distance_lookup [(1::nat, Vertex_init 1 ''actor'')] 1 1 = Inl KeyError"
  by (simp add: graph_wf_def item_in_graph_def path_between_def shortest_path_bfs_def
      distance_lookup_def shortest_distance_bfs_def Vertex_init_def)

section \<open>Filtering never finds a shorter path\<close>

text \<open>
  C3: on a graph whose neighbour references are vertices, when
  \<open>shortest_path_bfs\<close> and \<open>shortest_path_bfs_filtered\<close> both return a non-empty path
  for the same start and target, the filtered path is at least as long as the
  unfiltered one, whatever the key, the thresholds and the movie records.
\<close>

theorem filtered_path_not_shorter:
  assumes "graph_wf g"
    and "shortest_path_bfs g s t = Inr p" and "p \<noteq> []"
    and "shortest_path_bfs_filtered g (s, t) key thresholds movies = Inr pf" and "pf \<noteq> []"
  shows "length p \<le> length pf"
proof -
  from assms(2) have i: "item_in_graph g s" "item_in_graph g t"
    by (auto simp: shortest_path_bfs_def split: if_splits)
  from assms(4) i have l: "spf_loop g key (fst thresholds, snd thresholds) movies t [(s, [s])] {s}
      = Inr pf"
    by (simp add: shortest_path_bfs_filtered_def Let_def del: spf_loop.simps)
  have "\<forall>(v, p) \<in> set [(s, [s])]. v \<in> keys g \<and> path_between g s v p"
    using i(1) by (simp add: item_in_graph_keys path_between_single)
  from spf_loop_sound [OF assms(1) this l assms(5)] have pf: "path_between g s t pf" .
  from shortest_path_bfs_result [OF assms(1) i] assms(2) have "sp_result g s t p" by simp
  with assms(3) pf show ?thesis by (simp add: sp_result_def)
qed

theorem filtered_path_not_shorter_witness:
  "graph_wf
     [(1::nat, (Vertex_init 1 ''actor'')\<lparr>neighbours := [2, 3], appearances := {''a'', ''c''}\<rparr>),
      (2, (Vertex_init 2 ''actor'')\<lparr>neighbours := [1, 3], appearances := {''a'', ''b''}\<rparr>),
      (3, (Vertex_init 3 ''actor'')\<lparr>neighbours := [1, 2], appearances := {''b'', ''c''}\<rparr>)]
   \<and> shortest_path_bfs
     [(1::nat, (Vertex_init 1 ''actor'')\<lparr>neighbours := [2, 3], appearances := {''a'', ''c''}\<rparr>),
      (2, (Vertex_init 2 ''actor'')\<lparr>neighbours := [1, 3], appearances := {''a'', ''b''}\<rparr>),
      (3, (Vertex_init 3 ''actor'')\<lparr>neighbours := [1, 2], appearances := {''b'', ''c''}\<rparr>)] 1 3 = Inr [1, 3]
   \<and> [1, 3 :: nat] \<noteq> []
   \<and> shortest_path_bfs_filtered
     [(1::nat, (Vertex_init 1 ''actor'')\<lparr>neighbours := [2, 3], appearances := {''a'', ''c''}\<rparr>),
      (2, (Vertex_init 2 ''actor'')\<lparr>neighbours := [1, 3], appearances := {''a'', ''b''}\<rparr>),
      (3, (Vertex_init 3 ''actor'')\<lparr>neighbours := [1, 2], appearances := {''b'', ''c''}\<rparr>)] (1, 3) ''rating'' (1, 3)
     ([(''a'', ([], (1990, 10, 2))), (''b'', ([], (1991, 10, 2))), (''c'', ([], (1992, 10, 9)))]
        :: nat movies) = Inr [1, 2, 3]
   \<and> [1, 2, 3 :: nat] \<noteq> []
   \<and> length [1, 3 :: nat] \<le> length [1, 2, 3 :: nat]"
proof -
  let ?G = "[(1::nat, (Vertex_init 1 ''actor'')\<lparr>neighbours := [2, 3], appearances := {''a'', ''c''}\<rparr>),
      (2, (Vertex_init 2 ''actor'')\<lparr>neighbours := [1, 3], appearances := {''a'', ''b''}\<rparr>),
      (3, (Vertex_init 3 ''actor'')\<lparr>neighbours := [1, 2], appearances := {''b'', ''c''}\<rparr>)]"
  let ?M = "([(''a'', ([], (1990, 10, 2))), (''b'', ([], (1991, 10, 2))), (''c'', ([], (1992, 10, 9)))]
        :: nat movies)"
  have w: "graph_wf ?G" by (simp add: graph_wf_def Vertex_init_def item_in_graph_def)
  have a: "shortest_path_bfs ?G 1 3 = Inr [1, 3]"
    by (simp add: shortest_path_bfs_def item_in_graph_def Vertex_init_def)
  have b: "shortest_path_bfs_filtered ?G (1, 3) ''rating'' (1, 3) ?M = Inr [1, 2, 3]"
    by (simp add: shortest_path_bfs_filtered_def item_in_graph_def Vertex_init_def
        filter_by_key_def filter_common_def sp_bfs_filtered_helper_def)
  have n: "[1, 3 :: nat] \<noteq> []" "[1, 2, 3 :: nat] \<noteq> []" by simp_all
  have l: "length [1, 3 :: nat] \<le> length [1, 2, 3 :: nat]"
    by (rule filtered_path_not_shorter [OF w a n(1) b n(2)])
  show ?thesis by (intro conjI w a b n l)
qed

end
